theory Spec2Isabelle
  imports Main "HOL-Library.Word"
begin

unbundle bit_operations_syntax

section \<open>Platform values: errors, bytes, strings, array buffers\<close>

text \<open>
  The codec of \<^verbatim>\<open>src/minipack.ts\<close> works on \<^verbatim>\<open>Uint8Array\<close> views of array buffers.
  A heap is the list of all array buffers allocated so far (an address is an index into
  it, allocation appends), a \<^verbatim>\<open>Uint8Array\<close> is a window \<open>byteOffset, byteLength\<close> into the
  buffer at address \<open>buffer\<close>. A JavaScript string is its sequence of UTF-16 code units.
  \<^verbatim>\<open>RangeError\<close> is what typed arrays and data views throw on an access out of range,
  \<^verbatim>\<open>Error\<close> is the \<^verbatim>\<open>throw new Error()\<close> of \<^verbatim>\<open>minipackDecode\<close>.
\<close>

datatype error = RangeError | Error

type_synonym byte = "8 word"

type_synonym jsstring = "16 word list"

type_synonym heap = "byte list list"

record Uint8Array =
  buffer :: nat
  byteOffset :: nat
  byteLength :: nat

record DataView =
  dv_buffer :: nat
  dv_byteOffset :: nat
  dv_byteLength :: nat

type_synonym FileInit = "jsstring \<times> Uint8Array"

definition sizeHash :: nat where "sizeHash = 32"

definition sizeName :: nat where "sizeName = 1"

definition sizeBody :: nat where "sizeBody = 4"

text \<open>The bytes a view shows, and a view that is well-formed in a heap.\<close>

definition contents :: "heap \<Rightarrow> Uint8Array \<Rightarrow> byte list" where
  "contents h a = take (byteLength a) (drop (byteOffset a) (h ! buffer a))"

definition valid_view :: "heap \<Rightarrow> Uint8Array \<Rightarrow> bool" where
  "valid_view h a \<longleftrightarrow>
     buffer a < length h \<and> byteOffset a + byteLength a \<le> length (h ! buffer a)"

text \<open>\<^verbatim>\<open>new Uint8Array(n)\<close>: a fresh zero-filled buffer and the view of all of it.\<close>

definition new_Uint8Array :: "heap \<Rightarrow> nat \<Rightarrow> heap \<times> Uint8Array" where
  "new_Uint8Array h n =
     (h @ [replicate n 0], \<lparr>buffer = length h, byteOffset = 0, byteLength = n\<rparr>)"

text \<open>
  \<^verbatim>\<open>a.subarray(begin, end)\<close> for non-negative arguments: both are clamped to the length
  of \<open>a\<close>, the result is a view of the same buffer, empty when the clamped end is not
  after the clamped begin.
\<close>

definition subarray :: "Uint8Array \<Rightarrow> nat \<Rightarrow> nat \<Rightarrow> Uint8Array" where
  "subarray a begin end =
     (let n = byteLength a; b = min begin n; e = min end n
      in \<lparr>buffer = buffer a, byteOffset = byteOffset a + b, byteLength = e - b\<rparr>)"

text \<open>
  \<^verbatim>\<open>a.set(source, offset)\<close> copies the source bytes into \<open>a\<close> from \<open>offset\<close> on and throws
  a \<^verbatim>\<open>RangeError\<close> when they do not fit.
\<close>

fun write_at :: "'a list \<Rightarrow> nat \<Rightarrow> 'a list \<Rightarrow> 'a list" where
  "write_at buf pos [] = buf"
| "write_at buf pos (x # xs) = write_at (buf[pos := x]) (Suc pos) xs"

definition set_bytes :: "heap \<Rightarrow> Uint8Array \<Rightarrow> byte list \<Rightarrow> nat \<Rightarrow> error + heap" where
  "set_bytes h a src off =
     (if off + length src > byteLength a then Inl RangeError
      else Inr (h[buffer a := write_at (h ! buffer a) (byteOffset a + off) src]))"

text \<open>
  \<^verbatim>\<open>new DataView(buffer, byteOffset)\<close> throws when the offset is beyond the buffer and
  otherwise views the rest of it. The accessors throw when the field does not fit into
  the view. \<^verbatim>\<open>setUint8\<close> and \<^verbatim>\<open>setUint32\<close> store the value modulo \<open>2^8\<close> and \<open>2^32\<close>
  (the conversions ToUint8 and ToUint32); the 32-bit accessors are big-endian, as no
  \<^verbatim>\<open>littleEndian\<close> argument is given.
\<close>

definition new_DataView :: "heap \<Rightarrow> nat \<Rightarrow> nat \<Rightarrow> error + DataView" where
  "new_DataView h b off =
     (if off > length (h ! b) then Inl RangeError
      else Inr \<lparr>dv_buffer = b, dv_byteOffset = off, dv_byteLength = length (h ! b) - off\<rparr>)"

definition be32 :: "nat \<Rightarrow> byte list" where
  "be32 v = (let w = v mod 2 ^ 32
             in [of_nat (w div 2 ^ 24), of_nat (w div 2 ^ 16), of_nat (w div 2 ^ 8), of_nat w])"

definition getUint8 :: "heap \<Rightarrow> DataView \<Rightarrow> nat \<Rightarrow> error + nat" where
  "getUint8 h dv idx =
     (if idx + 1 > dv_byteLength dv then Inl RangeError
      else Inr (unat ((h ! dv_buffer dv) ! (dv_byteOffset dv + idx))))"

definition getUint32 :: "heap \<Rightarrow> DataView \<Rightarrow> nat \<Rightarrow> error + nat" where
  "getUint32 h dv idx =
     (if idx + 4 > dv_byteLength dv then Inl RangeError
      else (let buf = h ! dv_buffer dv; p = dv_byteOffset dv + idx
            in Inr (unat (buf ! p) * 2 ^ 24 + unat (buf ! (p + 1)) * 2 ^ 16
                    + unat (buf ! (p + 2)) * 2 ^ 8 + unat (buf ! (p + 3)))))"

definition setUint8 :: "heap \<Rightarrow> DataView \<Rightarrow> nat \<Rightarrow> nat \<Rightarrow> error + heap" where
  "setUint8 h dv idx v =
     (if idx + 1 > dv_byteLength dv then Inl RangeError
      else Inr (h[dv_buffer dv := (h ! dv_buffer dv)[dv_byteOffset dv + idx := of_nat v]]))"

definition setUint32 :: "heap \<Rightarrow> DataView \<Rightarrow> nat \<Rightarrow> nat \<Rightarrow> error + heap" where
  "setUint32 h dv idx v =
     (if idx + 4 > dv_byteLength dv then Inl RangeError
      else Inr (h[dv_buffer dv :=
                  write_at (h ! dv_buffer dv) (dv_byteOffset dv + idx) (be32 v)]))"

text \<open>A throwing call followed by the rest of the function: an error ends it.\<close>

definition andThen :: "error + 'a \<Rightarrow> ('a \<Rightarrow> error + 'b) \<Rightarrow> error + 'b" where
  "andThen m f = (case m of Inl e \<Rightarrow> Inl e | Inr x \<Rightarrow> f x)"

section \<open>\<^verbatim>\<open>src/text.ts\<close>\<close>

subsection \<open>\<^verbatim>\<open>utfEncode\<close>: \<^verbatim>\<open>new TextEncoder().encode(data)\<close>\<close>

text \<open>
  The encoder first reads the code units as scalar values (a high surrogate followed by
  a low one is one supplementary code point, any other surrogate becomes U+FFFD), then
  writes each scalar value in UTF-8.
\<close>

definition is_high :: "16 word \<Rightarrow> bool" where
  "is_high u \<longleftrightarrow> 0xD800 \<le> unat u \<and> unat u \<le> 0xDBFF"

definition is_low :: "16 word \<Rightarrow> bool" where
  "is_low u \<longleftrightarrow> 0xDC00 \<le> unat u \<and> unat u \<le> 0xDFFF"

fun scalars :: "jsstring \<Rightarrow> nat list" where
  "scalars [] = []"
| "scalars [u] = [if is_high u \<or> is_low u then 0xFFFD else unat u]"
| "scalars (u # l # us) =
     (if is_high u \<and> is_low l
      then (0x10000 + (unat u - 0xD800) * 1024 + (unat l - 0xDC00)) # scalars us
      else (if is_high u \<or> is_low u then 0xFFFD else unat u) # scalars (l # us))"

definition utf8_bytes :: "nat \<Rightarrow> byte list" where
  "utf8_bytes cp =
     (if cp < 0x80 then [of_nat cp]
      else if cp < 0x800 then [of_nat (0xC0 + cp div 64), of_nat (0x80 + cp mod 64)]
      else if cp < 0x10000 then
        [of_nat (0xE0 + cp div 4096), of_nat (0x80 + cp div 64 mod 64), of_nat (0x80 + cp mod 64)]
      else
        [of_nat (0xF0 + cp div 262144), of_nat (0x80 + cp div 4096 mod 64),
         of_nat (0x80 + cp div 64 mod 64), of_nat (0x80 + cp mod 64)])"

definition utfEncode :: "jsstring \<Rightarrow> byte list" where
  "utfEncode data = concat (map utf8_bytes (scalars data))"

subsection \<open>\<^verbatim>\<open>utfDecode\<close>: \<^verbatim>\<open>new TextDecoder().decode(data)\<close>\<close>

text \<open>
  The decoder is the UTF-8 decoder of the Encoding Standard in its default mode: not
  fatal (a malformed sequence gives U+FFFD and decoding goes on, a byte that breaks a
  sequence is read again as the start of the next one), and with \<^verbatim>\<open>ignoreBOM\<close> false,
  which drops a leading U+FEFF from the output. The state is the code point being
  assembled, the continuation bytes seen and needed, and the range allowed for the next
  continuation byte. \<open>x mod 32\<close> is \<^verbatim>\<open>x & 0x1F\<close> and \<open>cp * 64 + x mod 64\<close> is
  \<^verbatim>\<open>(cp << 6) | (x & 0x3F)\<close>.
\<close>

function utf8_decode :: "nat \<Rightarrow> nat \<Rightarrow> nat \<Rightarrow> nat \<Rightarrow> nat \<Rightarrow> byte list \<Rightarrow> nat list" where
  "utf8_decode cp seen needed lo up [] = (if needed \<noteq> 0 then [0xFFFD] else [])"
| "utf8_decode cp seen needed lo up (b # bs) =
     (let x = unat b in
      if needed = 0 then
        (if x \<le> 0x7F then x # utf8_decode 0 0 0 0x80 0xBF bs
         else if 0xC2 \<le> x \<and> x \<le> 0xDF then utf8_decode (x mod 32) 0 1 lo up bs
         else if 0xE0 \<le> x \<and> x \<le> 0xEF then
           utf8_decode (x mod 16) 0 2 (if x = 0xE0 then 0xA0 else lo)
             (if x = 0xED then 0x9F else up) bs
         else if 0xF0 \<le> x \<and> x \<le> 0xF4 then
           utf8_decode (x mod 8) 0 3 (if x = 0xF0 then 0x90 else lo)
             (if x = 0xF4 then 0x8F else up) bs
         else 0xFFFD # utf8_decode 0 0 0 0x80 0xBF bs)
      else if x < lo \<or> up < x then 0xFFFD # utf8_decode 0 0 0 0x80 0xBF (b # bs)
      else (let cp' = cp * 64 + x mod 64 in
            if seen + 1 \<noteq> needed then utf8_decode cp' (seen + 1) needed 0x80 0xBF bs
            else cp' # utf8_decode 0 0 0 0x80 0xBF bs))"
  by pat_completeness auto
termination
  by (relation "measure (\<lambda>(cp, seen, needed, lo, up, bs).
        2 * length bs + (if needed = 0 then 0 else 1))") auto

definition strip_bom :: "nat list \<Rightarrow> nat list" where
  "strip_bom cps = (case cps of [] \<Rightarrow> [] | c # cs \<Rightarrow> if c = 0xFEFF then cs else c # cs)"

definition utf16_units :: "nat \<Rightarrow> jsstring" where
  "utf16_units cp =
     (if cp < 0x10000 then [of_nat cp]
      else [of_nat (0xD800 + (cp - 0x10000) div 1024), of_nat (0xDC00 + (cp - 0x10000) mod 1024)])"

definition utfDecode :: "byte list \<Rightarrow> jsstring" where
  "utfDecode data = concat (map utf16_units (strip_bom (utf8_decode 0 0 0 0x80 0xBF data)))"

subsection \<open>\<^verbatim>\<open>pad0\<close> and \<^verbatim>\<open>hexEncode\<close>\<close>

text \<open>
  \<^verbatim>\<open>data.toString(radix)\<close> of a non-negative integer, \<^verbatim>\<open>toUpperCase\<close> (on the ASCII
  letters, the only ones \<^verbatim>\<open>toString\<close> produces) and \<^verbatim>\<open>padStart\<close> with a one-character
  filler.
\<close>

definition digit_char :: "nat \<Rightarrow> 16 word" where
  "digit_char d = (if d < 10 then of_nat (48 + d) else of_nat (87 + d))"

function toString_radix :: "nat \<Rightarrow> nat \<Rightarrow> jsstring" where
  "toString_radix n r =
     (if n < r \<or> r < 2 then [digit_char n]
      else toString_radix (n div r) r @ [digit_char (n mod r)])"
  by pat_completeness auto
termination
  by (relation "measure fst") auto

definition upper_unit :: "16 word \<Rightarrow> 16 word" where
  "upper_unit u = (if 97 \<le> unat u \<and> unat u \<le> 122 then u - 32 else u)"

definition toUpperCase :: "jsstring \<Rightarrow> jsstring" where
  "toUpperCase s = map upper_unit s"

definition padStart :: "jsstring \<Rightarrow> nat \<Rightarrow> 16 word \<Rightarrow> jsstring" where
  "padStart s n c = replicate (n - length s) c @ s"

definition pad0 :: "nat \<Rightarrow> nat \<Rightarrow> nat \<Rightarrow> jsstring" where
  "pad0 data digit radix = padStart (toUpperCase (toString_radix data radix)) digit 48"

definition hexEncode :: "byte list \<Rightarrow> jsstring" where
  "hexEncode data = concat (map (\<lambda>n. pad0 (unat n) 2 16) data)"

section \<open>The digest collaborator\<close>

text \<open>
  Modelled from the spec: \<^verbatim>\<open>cryptoHash\<close> of \<^verbatim>\<open>crypto.ts\<close> is not among the sources. The
  spec describes it as a cryptographic digest that is deterministic and returns 32 bytes.
  The codec below takes the digest as a parameter; SHA-256 is the instance at which the
  theorems are applied to concrete inputs. Its round constants are the first 32 bits of
  the fractional parts of the cube roots of the first 64 primes, its initial state those
  of the square roots of the first 8; \<open>root_bits k b n 0\<close> is the integer \<open>k\<close>-th root
  of \<open>n\<close>, found bit by bit from bit \<open>b - 1\<close> down.
\<close>

definition first_primes :: "nat list" where
  "first_primes = filter (\<lambda>n. list_all (\<lambda>d. n mod d \<noteq> 0) [2..<n]) [2..<312]"

fun root_bits :: "nat \<Rightarrow> nat \<Rightarrow> nat \<Rightarrow> nat \<Rightarrow> nat" where
  "root_bits k 0 n r = r"
| "root_bits k (Suc b) n r = root_bits k b n (if (r + 2 ^ b) ^ k \<le> n then r + 2 ^ b else r)"

definition K256 :: "32 word list" where
  "K256 = map (\<lambda>p. of_nat (root_bits 3 35 (p * 2 ^ 96) 0)) first_primes"

definition Ch :: "32 word \<Rightarrow> 32 word \<Rightarrow> 32 word \<Rightarrow> 32 word" where
  "Ch x y z = (x AND y) XOR (NOT x AND z)"

definition Maj :: "32 word \<Rightarrow> 32 word \<Rightarrow> 32 word \<Rightarrow> 32 word" where
  "Maj x y z = (x AND y) XOR (x AND z) XOR (y AND z)"

definition bsig0 :: "32 word \<Rightarrow> 32 word" where
  "bsig0 x = word_rotr 2 x XOR word_rotr 13 x XOR word_rotr 22 x"

definition bsig1 :: "32 word \<Rightarrow> 32 word" where
  "bsig1 x = word_rotr 6 x XOR word_rotr 11 x XOR word_rotr 25 x"

definition ssig0 :: "32 word \<Rightarrow> 32 word" where
  "ssig0 x = word_rotr 7 x XOR word_rotr 18 x XOR drop_bit 3 x"

definition ssig1 :: "32 word \<Rightarrow> 32 word" where
  "ssig1 x = word_rotr 17 x XOR word_rotr 19 x XOR drop_bit 10 x"

definition sha_pad :: "byte list \<Rightarrow> byte list" where
  "sha_pad m = (let n = length m; bits = 8 * n in
     m @ [0x80] @ replicate ((64 - (n + 9) mod 64) mod 64) 0 @
     map (\<lambda>k. of_nat (bits div 2 ^ (8 * (7 - k)))) [0..<8])"

fun word_of_bytes :: "byte list \<Rightarrow> 32 word" where
  "word_of_bytes bs = foldl (\<lambda>w b. push_bit 8 w OR ucast b) 0 bs"

fun block_words :: "nat \<Rightarrow> byte list \<Rightarrow> 32 word list" where
  "block_words 0 bs = []"
| "block_words (Suc n) bs = word_of_bytes (take 4 bs) # block_words n (drop 4 bs)"

fun schedule :: "nat \<Rightarrow> 32 word list \<Rightarrow> 32 word list" where
  "schedule 0 ws = ws"
| "schedule (Suc n) ws =
     (let t = length ws in
      schedule n (ws @ [ssig1 (ws ! (t - 2)) + ws ! (t - 7) + ssig0 (ws ! (t - 15)) + ws ! (t - 16)]))"

type_synonym sha_state =
  "32 word \<times> 32 word \<times> 32 word \<times> 32 word \<times> 32 word \<times> 32 word \<times> 32 word \<times> 32 word"

definition sha_round :: "sha_state \<Rightarrow> 32 word \<times> 32 word \<Rightarrow> sha_state" where
  "sha_round s kw = (case s of (a, b, c, d, e, f, g, h) \<Rightarrow>
     let t1 = h + bsig1 e + Ch e f g + fst kw + snd kw; t2 = bsig0 a + Maj a b c
     in (t1 + t2, a, b, c, d + t1, e, f, g))"

definition sha_add :: "sha_state \<Rightarrow> sha_state \<Rightarrow> sha_state" where
  "sha_add s s' = (case s of (a, b, c, d, e, f, g, h) \<Rightarrow>
     case s' of (a', b', c', d', e', f', g', h') \<Rightarrow>
     (a + a', b + b', c + c', d + d', e + e', f + f', g + g', h + h'))"

definition sha_block :: "sha_state \<Rightarrow> byte list \<Rightarrow> sha_state" where
  "sha_block s blk = sha_add s (foldl sha_round s (zip K256 (schedule 48 (block_words 16 blk))))"

fun sha_blocks :: "nat \<Rightarrow> sha_state \<Rightarrow> byte list \<Rightarrow> sha_state" where
  "sha_blocks 0 s bs = s"
| "sha_blocks (Suc n) s bs = sha_blocks n (sha_block s (take 64 bs)) (drop 64 bs)"

definition word_bytes :: "32 word \<Rightarrow> byte list" where
  "word_bytes w = [ucast (drop_bit 24 w), ucast (drop_bit 16 w), ucast (drop_bit 8 w), ucast w]"

definition sha_out :: "sha_state \<Rightarrow> byte list" where
  "sha_out s = (case s of (a, b, c, d, e, f, g, h) \<Rightarrow>
     word_bytes a @ word_bytes b @ word_bytes c @ word_bytes d @
     word_bytes e @ word_bytes f @ word_bytes g @ word_bytes h)"

definition sha_init :: sha_state where
  "sha_init = (let f = (\<lambda>i. of_nat (root_bits 2 35 (first_primes ! i * 2 ^ 64) 0))
               in (f 0, f 1, f 2, f 3, f 4, f 5, f 6, f 7))"

definition sha256 :: "byte list \<Rightarrow> byte list" where
  "sha256 m = (let p = sha_pad m in
     sha_out (sha_blocks (length p div 64) sha_init p))"

text \<open>
  Modelled from the spec: a second digest that meets what the spec requires of the
  collaborator (deterministic, 32 bytes for every input) without telling all bodies
  apart: 31 zero bytes, then the sum of the low halves of the bytes of the body.
\<close>

definition weak_digest :: "byte list \<Rightarrow> byte list" where
  "weak_digest b = replicate 31 0 @ [sum_list (map (\<lambda>x. x AND 15) b)]"

section \<open>\<^verbatim>\<open>src/minipack.ts\<close>\<close>

text \<open>
  \<^verbatim>\<open>cryptoHash\<close> comes from \<^verbatim>\<open>crypto.ts\<close>, which is not among the sources. The codec
  takes it as a parameter \<open>H\<close>: the function from the bytes of the body to the bytes of
  the array that \<^verbatim>\<open>await cryptoHash(false, body)\<close> yields. The arrays that \<^verbatim>\<open>utfEncode\<close>
  and \<^verbatim>\<open>cryptoHash\<close> return are temporaries, never reachable after the call; the model
  passes their bytes as values and keeps only the archive in the heap.
\<close>

subsection \<open>\<^verbatim>\<open>minipackEncode\<close>\<close>

definition encode_entry ::
  "(byte list \<Rightarrow> byte list) \<Rightarrow> heap \<Rightarrow> Uint8Array \<Rightarrow> nat \<Rightarrow> FileInit \<Rightarrow> error + heap \<times> nat" where
  "encode_entry H h archive i f =
     (let name = utfEncode (fst f); body = snd f in
      andThen (set_bytes h archive (H (contents h body)) i) (\<lambda>h1.
      let i1 = i + sizeHash in
      andThen (new_DataView h1 (buffer archive) i1) (\<lambda>dv1.
      andThen (setUint8 h1 dv1 0 (length name)) (\<lambda>h2.
      let i2 = i1 + sizeName in
      andThen (new_DataView h2 (buffer archive) i2) (\<lambda>dv2.
      andThen (setUint32 h2 dv2 0 (byteLength body)) (\<lambda>h3.
      let i3 = i2 + sizeBody in
      andThen (set_bytes h3 archive name i3) (\<lambda>h4.
      let i4 = i3 + length name in
      andThen (set_bytes h4 archive (contents h4 body) i4) (\<lambda>h5.
      Inr (h5, i4 + byteLength body)))))))))"

fun encode_loop ::
  "(byte list \<Rightarrow> byte list) \<Rightarrow> heap \<Rightarrow> Uint8Array \<Rightarrow> nat \<Rightarrow> FileInit list \<Rightarrow> error + heap" where
  "encode_loop H h archive i [] = Inr h"
| "encode_loop H h archive i (f # fs) =
     (case encode_entry H h archive i f of
        Inl e \<Rightarrow> Inl e
      | Inr (h', i') \<Rightarrow> encode_loop H h' archive i' fs)"

definition archive_size :: "FileInit list \<Rightarrow> nat" where
  "archive_size files =
     foldl (\<lambda>a (k, v). a + sizeHash + sizeName + sizeBody + length (utfEncode k) + byteLength v)
       0 files"

definition minipackEncode ::
  "(byte list \<Rightarrow> byte list) \<Rightarrow> heap \<Rightarrow> FileInit list \<Rightarrow> error + heap \<times> Uint8Array" where
  "minipackEncode H h files =
     (let alloc = new_Uint8Array h (archive_size files); archive = snd alloc
      in andThen (encode_loop H (fst alloc) archive 0 files) (\<lambda>h'. Inr (h', archive)))"

subsection \<open>\<^verbatim>\<open>minipackDecode\<close>\<close>

text \<open>
  One pass of the loop body, split in two: \<open>read_record\<close> takes the five fields at the
  cursor and returns them with the cursor after them, \<open>decode_record\<close> adds the
  comparison of the two hex strings. The loop has no update clause and no visible
  bound, so it is a partial function: \<open>None\<close> would be a run that never returns.
\<close>

definition read_record ::
  "heap \<Rightarrow> Uint8Array \<Rightarrow> nat \<Rightarrow> error + Uint8Array \<times> jsstring \<times> Uint8Array \<times> nat" where
  "read_record h archive i =
     (let hash = subarray archive i (i + sizeHash); i1 = i + sizeHash in
      andThen (new_DataView h (buffer archive) i1) (\<lambda>dv1.
      andThen (getUint8 h dv1 0) (\<lambda>ns.
      let i2 = i1 + sizeName in
      andThen (new_DataView h (buffer archive) i2) (\<lambda>dv2.
      andThen (getUint32 h dv2 0) (\<lambda>bs.
      let i3 = i2 + sizeBody;
          name = utfDecode (contents h (subarray archive i3 (i3 + ns)));
          i4 = i3 + ns;
          body = subarray archive i4 (i4 + bs);
          i5 = i4 + bs
      in Inr (hash, name, body, i5))))))"

definition decode_record ::
  "(byte list \<Rightarrow> byte list) \<Rightarrow> heap \<Rightarrow> Uint8Array \<Rightarrow> nat \<Rightarrow> error + FileInit \<times> nat" where
  "decode_record H h archive i =
     (case read_record h archive i of
        Inl e \<Rightarrow> Inl e
      | Inr (hash, name, body, i') \<Rightarrow>
          if hexEncode (contents h hash) \<noteq> hexEncode (H (contents h body)) then Inl Error
          else Inr ((name, body), i'))"

partial_function (option) decode_loop ::
  "(byte list \<Rightarrow> byte list) \<Rightarrow> heap \<Rightarrow> Uint8Array \<Rightarrow> nat \<Rightarrow> FileInit list
     \<Rightarrow> (error + FileInit list) option" where
  "decode_loop H h archive i files =
     (if i < byteLength archive then
        (case decode_record H h archive i of
           Inl e \<Rightarrow> Some (Inl e)
         | Inr (f, i') \<Rightarrow> decode_loop H h archive i' (files @ [f]))
      else Some (Inr files))"

definition minipackDecode ::
  "(byte list \<Rightarrow> byte list) \<Rightarrow> heap \<Rightarrow> Uint8Array \<Rightarrow> (error + FileInit list) option" where
  "minipackDecode H h archive = decode_loop H h archive 0 []"

section \<open>Notions used in the statements\<close>

text \<open>The two upper-case hexadecimal digits that \<^verbatim>\<open>pad0\<close> gives for a byte.\<close>

definition hex_char :: "nat \<Rightarrow> 16 word" where
  "hex_char d = of_nat (if d < 10 then 48 + d else 55 + d)"

text \<open>
  The bytes that one pass of the encode loop stores for a digest \<open>d\<close>, name bytes \<open>n\<close>
  and body bytes \<open>b\<close>: the length fields hold the lengths modulo \<open>2^8\<close> and \<open>2^32\<close>.
\<close>

definition layout :: "byte list \<Rightarrow> byte list \<Rightarrow> byte list \<Rightarrow> byte list" where
  "layout d n b = d @ [of_nat (length n)] @ be32 (length b) @ n @ b"

definition stored :: "(byte list \<Rightarrow> byte list) \<Rightarrow> heap \<Rightarrow> FileInit \<Rightarrow> byte list" where
  "stored H h f = layout (H (contents h (snd f))) (utfEncode (fst f)) (contents h (snd f))"

text \<open>
  A raw record is a triple of digest, name and body bytes; it is well-sized when the
  digest has 32 bytes and the two lengths fit their fields.
\<close>

type_synonym raw_record = "byte list \<times> byte list \<times> byte list"

definition raw_layout :: "raw_record \<Rightarrow> byte list" where
  "raw_layout r = layout (fst r) (fst (snd r)) (snd (snd r))"

definition well_sized :: "raw_record \<Rightarrow> bool" where
  "well_sized r \<longleftrightarrow>
     length (fst r) = 32 \<and> length (fst (snd r)) < 256 \<and> length (snd (snd r)) < 2 ^ 32"

text \<open>
  The cursor at the start of pass \<open>k\<close> of the decode loop (counting from 0), if the loop
  gets that far.
\<close>

fun visit :: "(byte list \<Rightarrow> byte list) \<Rightarrow> heap \<Rightarrow> Uint8Array \<Rightarrow> nat \<Rightarrow> nat option" where
  "visit H h a 0 = Some 0"
| "visit H h a (Suc k) =
     (case visit H h a k of
        None \<Rightarrow> None
      | Some i \<Rightarrow>
          if i < byteLength a then
            (case decode_record H h a i of Inl e \<Rightarrow> None | Inr (f, i') \<Rightarrow> Some i')
          else None)"

text \<open>
  The example of the spec: the name \<^verbatim>\<open>a.txt\<close>, and its UTF-8 bytes.
\<close>

definition a_txt :: jsstring where
  "a_txt = [0x61, 0x2E, 0x74, 0x78, 0x74]"

definition a_txt_bytes :: "byte list" where
  "a_txt_bytes = [0x61, 0x2E, 0x74, 0x78, 0x74]"

text \<open>
  A string is well formed when it has no unpaired surrogate: every high surrogate is
  followed by a low one, and every low surrogate follows a high one.
\<close>

fun well_formed :: "jsstring \<Rightarrow> bool" where
  "well_formed [] = True"
| "well_formed [u] = (\<not> is_high u \<and> \<not> is_low u)"
| "well_formed (u # l # us) =
     (if is_high u then is_low l \<and> well_formed us else \<not> is_low u \<and> well_formed (l # us))"

definition scalar_value :: "nat \<Rightarrow> bool" where
  "scalar_value cp \<longleftrightarrow> cp < 0x110000 \<and> \<not> (0xD800 \<le> cp \<and> cp \<le> 0xDFFF)"

section \<open>Basic facts\<close>

lemma andThen_Inl [simp]: "andThen (Inl e) f = Inl e"
  by (simp add: andThen_def)

lemma andThen_Inr [simp]: "andThen (Inr x) f = f x"
  by (simp add: andThen_def)

lemma andThen_eq_Inr:
  "andThen m f = Inr y \<longleftrightarrow> (\<exists>x. m = Inr x \<and> f x = Inr y)"
  by (cases m) simp_all

lemma read_record_cursor:
  assumes "read_record h a i = Inr (hash, name, body, i')"
  shows "i + 37 \<le> i'"
  using assms
  by (auto simp: read_record_def Let_def andThen_eq_Inr sizeHash_def sizeName_def sizeBody_def)

lemma decode_record_cursor:
  assumes "decode_record H h a i = Inr (f, i')"
  shows "i + 37 \<le> i'"
  using assms
  by (auto simp: decode_record_def split: sum.splits if_splits dest: read_record_cursor)

lemma decode_loop_returns: "\<exists>r. decode_loop H h a i fs = Some r"
proof (induction "byteLength a - i" arbitrary: i fs rule: less_induct)
  case less
  show ?case
  proof (cases "i < byteLength a")
    case False
    then show ?thesis by (subst decode_loop.simps) simp
  next
    case True
    show ?thesis
    proof (cases "decode_record H h a i")
      case (Inl e)
      with True show ?thesis by (subst decode_loop.simps) simp
    next
      case (Inr p)
      obtain f i' where p: "p = (f, i')" by (cases p)
      from Inr p have "i + 37 \<le> i'" by (auto dest: decode_record_cursor)
      with True have "byteLength a - i' < byteLength a - i" by arith
      from less [OF this] obtain r where "decode_loop H h a i' (fs @ [f]) = Some r" by blast
      with True Inr p show ?thesis by (subst decode_loop.simps) simp
    qed
  qed
qed

lemma unat_of_nat16:
  assumes "m < 65536"
  shows "unat (of_nat m :: 16 word) = m"
  using assms by (simp add: unat_of_nat)

lemma unat_byte_less: "unat (b :: byte) < 256"
proof -
  have "unat b < 2 ^ LENGTH(8)" by (rule unsigned_less)
  then show ?thesis by simp
qed

lemma upper_unit_digit:
  assumes "d < 16"
  shows "upper_unit (digit_char d) = hex_char d"
proof (cases "d < 10")
  case True
  then have "unat (of_nat (48 + d) :: 16 word) = 48 + d"
    by (intro unat_of_nat16) simp
  with True show ?thesis
    by (simp add: upper_unit_def digit_char_def hex_char_def)
next
  case False
  from assms have u: "unat (of_nat (87 + d) :: 16 word) = 87 + d"
    by (intro unat_of_nat16) simp
  have "(of_nat (87 + d) :: 16 word) - 32 = of_nat (55 + d)"
    by simp
  with False assms u show ?thesis
    by (simp add: upper_unit_def digit_char_def hex_char_def)
qed

lemma pad0_byte:
  assumes "n < 256"
  shows "pad0 n 2 16 = [hex_char (n div 16), hex_char (n mod 16)]"
proof (cases "n < 16")
  case True
  then have "toString_radix n 16 = [digit_char n]" by simp
  with True show ?thesis
    by (simp add: pad0_def padStart_def toUpperCase_def upper_unit_digit hex_char_def)
next
  case False
  from assms have d: "n div 16 < 16" by simp
  then have "toString_radix (n div 16) 16 = [digit_char (n div 16)]" by simp
  with False have "toString_radix n 16 = [digit_char (n div 16), digit_char (n mod 16)]"
    by (subst toString_radix.simps) simp
  with d show ?thesis
    by (simp add: pad0_def padStart_def toUpperCase_def upper_unit_digit del: toString_radix.simps)
qed

lemma hex_char_inject:
  assumes "d < 16" "d' < 16" "hex_char d = hex_char d'"
  shows "d = d'"
proof -
  let ?f = "\<lambda>d::nat. if d < 10 then 48 + d else 55 + d"
  from assms(3) have "unat (of_nat (?f d) :: 16 word) = unat (of_nat (?f d') :: 16 word)"
    by (simp add: hex_char_def)
  moreover from assms(1) have "unat (of_nat (?f d) :: 16 word) = ?f d"
    by (intro unat_of_nat16) simp
  moreover from assms(2) have "unat (of_nat (?f d') :: 16 word) = ?f d'"
    by (intro unat_of_nat16) simp
  ultimately have "?f d = ?f d'" by simp
  with assms(1,2) show ?thesis by (simp split: if_splits)
qed

lemma pad0_inject:
  fixes a b :: byte
  assumes "pad0 (unat a) 2 16 = pad0 (unat b) 2 16"
  shows "a = b"
proof -
  have la: "unat a < 256" and lb: "unat b < 256"
    by (rule unat_byte_less)+
  from assms la lb have "hex_char (unat a div 16) = hex_char (unat b div 16)"
    and "hex_char (unat a mod 16) = hex_char (unat b mod 16)"
    by (simp_all add: pad0_byte)
  with la lb have "unat a div 16 = unat b div 16" and "unat a mod 16 = unat b mod 16"
    by (auto intro!: hex_char_inject)
  then have "unat a = unat b"
    by (metis div_mult_mod_eq)
  then show ?thesis by (rule word_unat_eq_iff [THEN iffD2])
qed

lemma pad0_length: "length (pad0 (unat (a::byte)) 2 16) = 2"
  by (simp add: pad0_byte unat_byte_less)

lemma hexEncode_inject: "hexEncode xs = hexEncode ys \<longleftrightarrow> xs = ys"
proof
  show "hexEncode xs = hexEncode ys \<Longrightarrow> xs = ys"
  proof (induction xs arbitrary: ys)
    case Nil
    show ?case
    proof (cases ys)
      case (Cons y ys')
      with Nil have "length (pad0 (unat y) 2 16 @ hexEncode ys') = 0"
        by (simp add: hexEncode_def)
      then show ?thesis by (simp add: pad0_length)
    qed simp
  next
    case (Cons x xs)
    show ?case
    proof (cases ys)
      case Nil
      with Cons.prems have "length (pad0 (unat x) 2 16 @ hexEncode xs) = 0"
        by (simp add: hexEncode_def)
      then show ?thesis by (simp add: pad0_length)
    next
      case (Cons y ys')
      with Cons.prems have "pad0 (unat x) 2 16 @ hexEncode xs = pad0 (unat y) 2 16 @ hexEncode ys'"
        by (simp add: hexEncode_def)
      then have "pad0 (unat x) 2 16 = pad0 (unat y) 2 16" and "hexEncode xs = hexEncode ys'"
        by (simp_all add: pad0_length)
      with Cons.IH Cons show ?thesis by (simp add: pad0_inject)
    qed
  qed
qed simp

subsection \<open>Writing into a buffer\<close>

lemma length_write_at [simp]: "length (write_at buf pos src) = length buf"
  by (induction src arbitrary: buf pos) simp_all

lemma write_at_append:
  "write_at buf pos (xs @ ys) = write_at (write_at buf pos xs) (pos + length xs) ys"
  by (induction xs arbitrary: buf pos) simp_all

lemma write_at_eq:
  assumes "pos + length src \<le> length buf"
  shows "write_at buf pos src = take pos buf @ src @ drop (pos + length src) buf"
  using assms
proof (induction src arbitrary: buf pos)
  case Nil
  then show ?case by simp
next
  case (Cons x xs)
  from Cons.prems have l: "pos < length buf" and l': "Suc pos + length xs \<le> length (buf[pos := x])"
    by simp_all
  have "write_at (buf[pos := x]) (Suc pos) xs =
        take (Suc pos) (buf[pos := x]) @ xs @ drop (Suc pos + length xs) (buf[pos := x])"
    by (rule Cons.IH [OF l'])
  also from l have "take (Suc pos) (buf[pos := x]) = take pos buf @ [x]"
    by (simp add: take_Suc_conv_app_nth)
  also have "drop (Suc pos + length xs) (buf[pos := x]) = drop (Suc pos + length xs) buf"
    by simp
  finally show ?case by simp
qed

lemma write_at_all:
  assumes "length src = length buf"
  shows "write_at buf 0 src = src"
  using assms by (simp add: write_at_eq)

lemma length_be32 [simp]: "length (be32 v) = 4"
  by (simp add: be32_def Let_def)

lemma length_layout: "length (layout d n b) = length d + 1 + 4 + length n + length b"
  by (simp add: layout_def)

subsection \<open>The heap during encoding\<close>

lemma contents_update_other:
  assumes "buffer v \<noteq> p"
  shows "contents (h[p := x]) v = contents h v"
  using assms by (simp add: contents_def)

lemma length_contents:
  assumes "valid_view h v"
  shows "length (contents h v) = byteLength v"
  using assms by (auto simp: contents_def valid_view_def)

lemma set_bytes_whole:
  assumes "byteOffset a = 0" "off + length src \<le> byteLength a"
  shows "set_bytes h a src off = Inr (h[buffer a := write_at (h ! buffer a) off src])"
  using assms by (simp add: set_bytes_def)

lemma setUint8_at:
  assumes "i < length (h ! p)"
  shows "andThen (new_DataView h p i) (\<lambda>dv. andThen (setUint8 h dv 0 v) f)
         = f (h[p := write_at (h ! p) i [of_nat v]])"
  using assms by (auto simp: new_DataView_def setUint8_def)

lemma setUint32_at:
  assumes "i + 4 \<le> length (h ! p)"
  shows "andThen (new_DataView h p i) (\<lambda>dv. andThen (setUint32 h dv 0 v) f)
         = f (h[p := write_at (h ! p) i (be32 v)])"
  using assms by (auto simp: new_DataView_def setUint32_def)

lemma encode_entry_stored:
  assumes a: "byteOffset a = 0" "byteLength a = length (h ! buffer a)" "buffer a < length h"
    and v: "valid_view h (snd f)" "buffer (snd f) \<noteq> buffer a"
    and H: "length (H (contents h (snd f))) = 32"
    and fit: "i + length (stored H h f) \<le> length (h ! buffer a)"
  shows "encode_entry H h a i f =
         Inr (h[buffer a := write_at (h ! buffer a) i (stored H h f)], i + length (stored H h f))"
proof -
  let ?p = "buffer a" and ?d = "H (contents h (snd f))" and ?n = "utfEncode (fst f)"
    and ?b = "contents h (snd f)"
  let ?buf = "h ! ?p"
  from v(1) have lb: "length ?b = byteLength (snd f)" by (rule length_contents)
  from fit H lb have fit': "i + 32 + 1 + 4 + length ?n + byteLength (snd f) \<le> length ?buf"
    by (simp add: stored_def length_layout)
  let ?h1 = "h[?p := write_at ?buf i ?d]"
  let ?h2 = "h[?p := write_at ?buf i (?d @ [of_nat (length ?n)])]"
  let ?h3 = "h[?p := write_at ?buf i (?d @ [of_nat (length ?n)] @ be32 (byteLength (snd f)))]"
  let ?h4 = "h[?p := write_at ?buf i (?d @ [of_nat (length ?n)] @ be32 (byteLength (snd f)) @ ?n)]"
  let ?h5 = "h[?p := write_at ?buf i (?d @ [of_nat (length ?n)] @ be32 (byteLength (snd f)) @ ?n @ ?b)]"
  have s1: "set_bytes h a ?d i = Inr ?h1"
    using a fit' H by (simp add: set_bytes_whole)
  have s2: "andThen (new_DataView ?h1 ?p (i + sizeHash))
              (\<lambda>dv. andThen (setUint8 ?h1 dv 0 (length ?n)) g) = g ?h2" for g :: "heap \<Rightarrow> error + heap \<times> nat"
    using a fit' H by (subst setUint8_at) (simp_all add: sizeHash_def write_at_append)
  have s3: "andThen (new_DataView ?h2 ?p (i + sizeHash + sizeName))
              (\<lambda>dv. andThen (setUint32 ?h2 dv 0 (byteLength (snd f))) g) = g ?h3"
    for g :: "heap \<Rightarrow> error + heap \<times> nat"
    using a fit' H
    by (subst setUint32_at) (simp_all add: sizeHash_def sizeName_def write_at_append)
  have s4: "set_bytes ?h3 a ?n (i + sizeHash + sizeName + sizeBody) = Inr ?h4"
    using a fit' H
    by (simp add: set_bytes_whole sizeHash_def sizeName_def sizeBody_def write_at_append)
  have c4: "contents ?h4 (snd f) = ?b"
    using v(2) by (rule contents_update_other)
  have s5: "set_bytes ?h4 a ?b (i + sizeHash + sizeName + sizeBody + length ?n) = Inr ?h5"
    using a fit' H lb
    by (simp add: set_bytes_whole sizeHash_def sizeName_def sizeBody_def write_at_append)
  have st: "stored H h f = ?d @ [of_nat (length ?n)] @ be32 (byteLength (snd f)) @ ?n @ ?b"
    by (simp add: stored_def layout_def lb)
  have len: "i + sizeHash + sizeName + sizeBody + length ?n + byteLength (snd f)
             = i + length (stored H h f)"
    using H lb by (simp add: st sizeHash_def sizeName_def sizeBody_def)
  show ?thesis
    unfolding encode_entry_def Let_def
    by (simp only: s1 andThen_Inr s2 s3 s4 c4 s5 len st)
qed

lemma valid_view_update_other:
  assumes "valid_view h v" "buffer v \<noteq> p"
  shows "valid_view (h[p := x]) v"
  using assms by (simp add: valid_view_def)

lemma encode_loop_stored:
  assumes "byteOffset a = 0" "byteLength a = length (h ! buffer a)" "buffer a < length h"
    and "\<forall>f \<in> set fs. valid_view h (snd f) \<and> buffer (snd f) \<noteq> buffer a"
    and "\<forall>f \<in> set fs. length (H (contents h (snd f))) = 32"
    and "i + length (concat (map (stored H h) fs)) \<le> length (h ! buffer a)"
  shows "encode_loop H h a i fs =
         Inr (h[buffer a := write_at (h ! buffer a) i (concat (map (stored H h) fs))])"
  using assms
proof (induction fs arbitrary: h i)
  case Nil
  then show ?case by simp
next
  case (Cons f fs)
  let ?p = "buffer a"
  let ?h' = "h[?p := write_at (h ! ?p) i (stored H h f)]"
  let ?i' = "i + length (stored H h f)"
  have step: "encode_entry H h a i f = Inr (?h', ?i')"
    using Cons.prems by (intro encode_entry_stored) simp_all
  have same: "stored H ?h' g = stored H h g" if "g \<in> set fs" for g
    using that Cons.prems(4) by (simp add: stored_def contents_update_other)
  then have map_same: "map (stored H ?h') fs = map (stored H h) fs"
    by simp
  have valid: "\<forall>g \<in> set fs. valid_view ?h' (snd g) \<and> buffer (snd g) \<noteq> ?p"
    using Cons.prems(4) by (simp add: valid_view_update_other)
  have H: "\<forall>g \<in> set fs. length (H (contents ?h' (snd g))) = 32"
    using Cons.prems(4,5) by (simp add: contents_update_other)
  have fit: "?i' + length (concat (map (stored H ?h') fs)) \<le> length (?h' ! ?p)"
    using Cons.prems(3,6) by (simp add: map_same)
  have "encode_loop H ?h' a ?i' fs =
        Inr (?h'[?p := write_at (?h' ! ?p) ?i' (concat (map (stored H ?h') fs))])"
    using Cons.prems(1,2,3) valid H fit by (intro Cons.IH) simp_all
  also have "?h'[?p := write_at (?h' ! ?p) ?i' (concat (map (stored H ?h') fs))]
             = h[?p := write_at (h ! ?p) i (concat (map (stored H h) (f # fs)))]"
    using Cons.prems(3) by (simp add: map_same write_at_append)
  finally show ?case by (simp add: step)
qed

lemma archive_size_foldl:
  "foldl (\<lambda>a (k, v). a + sizeHash + sizeName + sizeBody + length (utfEncode k) + byteLength v) n fs
   = n + (\<Sum>f\<leftarrow>fs. 32 + 1 + 4 + length (utfEncode (fst f)) + byteLength (snd f))"
  by (induction fs arbitrary: n) (simp_all add: sizeHash_def sizeName_def sizeBody_def split_beta)

lemma archive_size_sum:
  "archive_size fs = (\<Sum>f\<leftarrow>fs. 32 + 1 + 4 + length (utfEncode (fst f)) + byteLength (snd f))"
  by (simp add: archive_size_def archive_size_foldl)

lemma length_stored:
  assumes "valid_view h (snd f)" "length (H (contents h (snd f))) = 32"
  shows "length (stored H h f) = 32 + 1 + 4 + length (utfEncode (fst f)) + byteLength (snd f)"
  using assms by (simp add: stored_def length_layout length_contents)

lemma length_concat_stored:
  assumes "\<forall>f \<in> set fs. valid_view h (snd f)" "\<forall>f \<in> set fs. length (H (contents h (snd f))) = 32"
  shows "length (concat (map (stored H h) fs)) = archive_size fs"
  using assms
  by (induction fs) (simp_all add: archive_size_sum length_stored)

lemma contents_append_heap:
  assumes "valid_view h v"
  shows "contents (h @ [x]) v = contents h v"
  using assms by (simp add: contents_def valid_view_def nth_append)

lemma valid_view_append_heap:
  assumes "valid_view h v"
  shows "valid_view (h @ [x]) v"
  using assms by (simp add: valid_view_def nth_append)

lemma stored_append_heap:
  assumes "valid_view h (snd f)"
  shows "stored H (h @ [x]) f = stored H h f"
  using assms by (simp add: stored_def contents_append_heap)

lemma minipackEncode_stored:
  assumes valid: "\<forall>f \<in> set fs. valid_view h (snd f)"
    and H: "\<forall>f \<in> set fs. length (H (contents h (snd f))) = 32"
  shows "minipackEncode H h fs =
         Inr (h @ [concat (map (stored H h) fs)],
              \<lparr>buffer = length h, byteOffset = 0, byteLength = archive_size fs\<rparr>)"
proof -
  let ?n = "archive_size fs"
  let ?h0 = "h @ [replicate ?n 0]"
  let ?a = "\<lparr>buffer = length h, byteOffset = 0, byteLength = ?n\<rparr>"
  have same: "map (stored H ?h0) fs = map (stored H h) fs"
    using valid by (simp add: stored_append_heap)
  have len: "length (concat (map (stored H h) fs)) = ?n"
    using valid H by (rule length_concat_stored)
  have "encode_loop H ?h0 ?a 0 fs =
        Inr (?h0[buffer ?a := write_at (?h0 ! buffer ?a) 0 (concat (map (stored H ?h0) fs))])"
  proof (rule encode_loop_stored)
    show "\<forall>f \<in> set fs. valid_view ?h0 (snd f) \<and> buffer (snd f) \<noteq> buffer ?a"
    proof (intro ballI conjI)
      fix f assume "f \<in> set fs"
      with valid have v: "valid_view h (snd f)" by simp
      then show "valid_view ?h0 (snd f)" by (rule valid_view_append_heap)
      from v show "buffer (snd f) \<noteq> buffer ?a" by (simp add: valid_view_def)
    qed
    show "\<forall>f \<in> set fs. length (H (contents ?h0 (snd f))) = 32"
      using valid H by (simp add: contents_append_heap)
    show "0 + length (concat (map (stored H ?h0) fs)) \<le> length (?h0 ! buffer ?a)"
      by (simp add: same len)
  qed simp_all
  also have "?h0[buffer ?a := write_at (?h0 ! buffer ?a) 0 (concat (map (stored H ?h0) fs))]
             = h @ [concat (map (stored H h) fs)]"
    by (simp add: same write_at_all len)
  finally show ?thesis
    by (simp add: minipackEncode_def new_Uint8Array_def Let_def)
qed

subsection \<open>What encoding leaves alone\<close>

lemma set_bytes_frame:
  assumes "set_bytes h a src off = Inr h'"
  shows "length h' = length h \<and> (\<forall>q. q \<noteq> buffer a \<longrightarrow> h' ! q = h ! q)"
  using assms by (auto simp: set_bytes_def split: if_splits)

lemma setUint8_frame:
  assumes "new_DataView h0 p i = Inr dv" "setUint8 h dv idx v = Inr h'"
  shows "length h' = length h \<and> (\<forall>q. q \<noteq> p \<longrightarrow> h' ! q = h ! q)"
  using assms by (auto simp: new_DataView_def setUint8_def split: if_splits)

lemma setUint32_frame:
  assumes "new_DataView h0 p i = Inr dv" "setUint32 h dv idx v = Inr h'"
  shows "length h' = length h \<and> (\<forall>q. q \<noteq> p \<longrightarrow> h' ! q = h ! q)"
  using assms by (auto simp: new_DataView_def setUint32_def split: if_splits)

lemma encode_entry_frame:
  assumes "encode_entry H h a i f = Inr (h', i')"
  shows "length h' = length h \<and> (\<forall>q. q \<noteq> buffer a \<longrightarrow> h' ! q = h ! q)"
proof -
  from assms obtain h1 dv1 h2 dv2 h3 h4 where
    1: "set_bytes h a (H (contents h (snd f))) i = Inr h1" and
    2: "new_DataView h1 (buffer a) (i + sizeHash) = Inr dv1"
       "setUint8 h1 dv1 0 (length (utfEncode (fst f))) = Inr h2" and
    3: "new_DataView h2 (buffer a) (i + sizeHash + sizeName) = Inr dv2"
       "setUint32 h2 dv2 0 (byteLength (snd f)) = Inr h3" and
    4: "set_bytes h3 a (utfEncode (fst f)) (i + sizeHash + sizeName + sizeBody) = Inr h4" and
    5: "set_bytes h4 a (contents h4 (snd f))
          (i + sizeHash + sizeName + sizeBody + length (utfEncode (fst f))) = Inr h'"
    by (auto simp: encode_entry_def Let_def andThen_eq_Inr)
  from set_bytes_frame [OF 1] setUint8_frame [OF 2] setUint32_frame [OF 3]
    set_bytes_frame [OF 4] set_bytes_frame [OF 5]
  show ?thesis by simp
qed

lemma encode_loop_frame:
  assumes "encode_loop H h a i fs = Inr h'"
  shows "length h' = length h \<and> (\<forall>q. q \<noteq> buffer a \<longrightarrow> h' ! q = h ! q)"
  using assms
proof (induction fs arbitrary: h i)
  case Nil
  then show ?case by simp
next
  case (Cons f fs)
  from Cons.prems obtain h1 i1 where
    step: "encode_entry H h a i f = Inr (h1, i1)" and rest: "encode_loop H h1 a i1 fs = Inr h'"
    by (auto split: sum.splits)
  from encode_entry_frame [OF step] Cons.IH [OF rest] show ?case by simp
qed

lemma minipackEncode_frame:
  assumes "minipackEncode H h fs = Inr (h', a)"
  shows "length h' = Suc (length h) \<and> take (length h) h' = h \<and> buffer a = length h"
proof -
  let ?h0 = "h @ [replicate (archive_size fs) 0]"
  from assms have loop: "encode_loop H ?h0 a 0 fs = Inr h'" and a: "buffer a = length h"
    by (auto simp: minipackEncode_def new_Uint8Array_def Let_def andThen_eq_Inr)
  from encode_loop_frame [OF loop] a
  have len: "length h' = Suc (length h)" and same: "\<forall>q < length h. h' ! q = h ! q"
    by (simp_all add: nth_append)
  have "take (length h) h' = h"
    by (rule nth_equalityI) (simp_all add: len same)
  with len a show ?thesis by simp
qed

subsection \<open>The digests\<close>

lemma sha_out_length: "length (sha_out s) = 32"
  by (simp add: sha_out_def word_bytes_def split: prod.split)

lemma sha256_length [simp]: "length (sha256 m) = 32"
  by (simp add: sha256_def Let_def sha_out_length)

lemma length_weak_digest [simp]: "length (weak_digest b) = 32"
  by (simp add: weak_digest_def)

subsection \<open>Reading the length fields\<close>

lemma unat_of_nat8: "unat (of_nat m :: byte) = m mod 256"
  by (simp add: unat_of_nat)

lemma split_bytes:
  fixes v :: nat
  shows "v div 16777216 * 16777216 + v div 65536 mod 256 * 65536
        + v div 256 mod 256 * 256 + v mod 256 = v"
proof -
  have a: "v div 65536 = v div 256 div 256" and b: "v div 16777216 = v div 256 div 256 div 256"
    by (simp_all add: div_mult2_eq [symmetric])
  define x where "x = v div 256"
  define y where "y = x div 256"
  define z where "z = y div 256"
  have 1: "v = x * 256 + v mod 256" by (simp add: x_def)
  have 2: "x = y * 256 + x mod 256" by (simp add: y_def)
  have 3: "y = z * 256 + y mod 256" by (simp add: z_def)
  have "z * 16777216 + y mod 256 * 65536 + x mod 256 * 256 + v mod 256 = v"
    using 1 2 3 by arith
  then show ?thesis by (simp add: a b x_def y_def z_def)
qed

lemma be32_value:
  assumes "v < 2 ^ 32"
  shows "unat (be32 v ! 0) * 2 ^ 24 + unat (be32 v ! 1) * 2 ^ 16
         + unat (be32 v ! 2) * 2 ^ 8 + unat (be32 v ! 3) = v"
proof -
  from assms have hi: "v div 16777216 < 256" by simp
  then have "v div 16777216 mod 256 = v div 16777216" by simp
  with assms split_bytes [of v] show ?thesis
    by (simp add: be32_def Let_def unat_of_nat8)
qed

lemma nth_mid:
  assumes "length xs = i" "k < length ys"
  shows "(xs @ ys @ zs) ! (i + k) = ys ! k"
  using assms by (auto simp: nth_append)

lemma take_drop_mid:
  assumes "length xs = i" "length ys = m"
  shows "take m (drop i (xs @ ys @ zs)) = ys"
  using assms by simp

lemma getUint8_at:
  assumes "h ! p = xs @ [of_nat v] @ ys" "length xs = i" "v < 256"
  shows "andThen (new_DataView h p i) (\<lambda>dv. andThen (getUint8 h dv 0) g) = g v"
  using assms by (simp add: new_DataView_def getUint8_def unat_of_nat8 nth_append)

lemma getUint32_at:
  assumes buf: "h ! p = xs @ be32 v @ ys" and i: "length xs = i" and v: "v < 2 ^ 32"
  shows "andThen (new_DataView h p i) (\<lambda>dv. andThen (getUint32 h dv 0) g) = g v"
proof -
  have n: "(h ! p) ! (i + k) = be32 v ! k" if "k < 4" for k
    using that i unfolding buf by (intro nth_mid) simp_all
  from n [of 0] n [of 1] n [of 2] n [of 3]
  have "unat ((h ! p) ! i) * 2 ^ 24 + unat ((h ! p) ! (i + 1)) * 2 ^ 16
        + unat ((h ! p) ! (i + 2)) * 2 ^ 8 + unat ((h ! p) ! (i + 3)) = v"
    using be32_value [OF v] by simp
  moreover have "i + 4 \<le> length (h ! p)"
    using i by (simp add: buf)
  ultimately show ?thesis
    by (auto simp: new_DataView_def getUint32_def Let_def)
qed

lemma subarray_inside:
  assumes "e \<le> byteLength a" "b \<le> e"
  shows "subarray a b e = \<lparr>buffer = buffer a, byteOffset = byteOffset a + b, byteLength = e - b\<rparr>"
  using assms by (simp add: subarray_def Let_def min_def)

lemma read_record_layout:
  assumes whole: "byteOffset a = 0" "byteLength a = length (h ! buffer a)"
    and buf: "h ! buffer a = pre @ layout d n b @ post"
    and d: "length d = 32" and n: "length n < 256" and b: "length b < 2 ^ 32"
  shows "read_record h a (length pre) =
         Inr (\<lparr>buffer = buffer a, byteOffset = length pre, byteLength = 32\<rparr>,
              utfDecode n,
              \<lparr>buffer = buffer a, byteOffset = length pre + 37 + length n, byteLength = length b\<rparr>,
              length pre + 37 + length n + length b)"
proof -
  let ?i = "length pre" and ?p = "buffer a"
  have len: "byteLength a = ?i + 37 + length n + length b + length post"
    using d by (simp add: whole buf layout_def)
  have hash: "subarray a ?i (?i + sizeHash) = \<lparr>buffer = ?p, byteOffset = ?i, byteLength = 32\<rparr>"
    using len whole by (simp add: subarray_inside sizeHash_def)
  have ns: "andThen (new_DataView h ?p (?i + sizeHash)) (\<lambda>dv. andThen (getUint8 h dv 0) g)
            = g (length n)" for g :: "nat \<Rightarrow> error + Uint8Array \<times> jsstring \<times> Uint8Array \<times> nat"
  proof (rule getUint8_at)
    show "h ! ?p = (pre @ d) @ [of_nat (length n)] @ (be32 (length b) @ n @ b @ post)"
      by (simp add: buf layout_def)
    show "length (pre @ d) = ?i + sizeHash" by (simp add: d sizeHash_def)
    show "length n < 256" by (rule n)
  qed
  have bs: "andThen (new_DataView h ?p (?i + sizeHash + sizeName)) (\<lambda>dv. andThen (getUint32 h dv 0) g)
            = g (length b)" for g :: "nat \<Rightarrow> error + Uint8Array \<times> jsstring \<times> Uint8Array \<times> nat"
  proof (rule getUint32_at)
    show "h ! ?p = (pre @ d @ [of_nat (length n)]) @ be32 (length b) @ (n @ b @ post)"
      by (simp add: buf layout_def)
    show "length (pre @ d @ [of_nat (length n)]) = ?i + sizeHash + sizeName"
      by (simp add: d sizeHash_def sizeName_def)
    show "length b < 2 ^ 32" by (rule b)
  qed
  have name_view: "subarray a (?i + sizeHash + sizeName + sizeBody)
                     (?i + sizeHash + sizeName + sizeBody + length n)
                   = \<lparr>buffer = ?p, byteOffset = ?i + 37, byteLength = length n\<rparr>"
    using len whole by (simp add: subarray_inside sizeHash_def sizeName_def sizeBody_def)
  have "take (length n) (drop (?i + 37) ((pre @ d @ [of_nat (length n)] @ be32 (length b)) @ n @ (b @ post))) = n"
    by (rule take_drop_mid) (simp_all add: d)
  then have name: "contents h \<lparr>buffer = ?p, byteOffset = ?i + 37, byteLength = length n\<rparr> = n"
    by (simp add: contents_def buf layout_def)
  have body_view: "subarray a (?i + sizeHash + sizeName + sizeBody + length n)
                     (?i + sizeHash + sizeName + sizeBody + length n + length b)
                   = \<lparr>buffer = ?p, byteOffset = ?i + 37 + length n, byteLength = length b\<rparr>"
    using len whole by (simp add: subarray_inside sizeHash_def sizeName_def sizeBody_def)
  show ?thesis
    unfolding read_record_def Let_def
    by (simp only: ns bs hash name_view name body_view)
       (simp add: sizeHash_def sizeName_def sizeBody_def)
qed

lemma contents_layout_hash:
  assumes "h ! p = pre @ layout d n b @ post" "length d = 32"
  shows "contents h \<lparr>buffer = p, byteOffset = length pre, byteLength = 32\<rparr> = d"
  using assms by (simp add: contents_def layout_def)

lemma contents_layout_body:
  assumes "h ! p = pre @ layout d n b @ post" "length d = 32"
  shows "contents h \<lparr>buffer = p, byteOffset = length pre + 37 + length n, byteLength = length b\<rparr> = b"
proof -
  have "take (length b) (drop (length pre + 37 + length n)
          ((pre @ d @ [of_nat (length n)] @ be32 (length b) @ n) @ b @ post)) = b"
    by (rule take_drop_mid) (simp_all add: assms(2))
  then show ?thesis by (simp add: contents_def assms(1) layout_def)
qed

lemma decode_record_layout:
  assumes whole: "byteOffset a = 0" "byteLength a = length (h ! buffer a)"
    and buf: "h ! buffer a = pre @ layout d n b @ post"
    and d: "length d = 32" and n: "length n < 256" and b: "length b < 2 ^ 32"
  shows "decode_record H h a (length pre) =
         (if d \<noteq> H b then Inl Error
          else Inr ((utfDecode n,
                     \<lparr>buffer = buffer a, byteOffset = length pre + 37 + length n, byteLength = length b\<rparr>),
                    length pre + 37 + length n + length b))"
  unfolding decode_record_def
  by (simp add: read_record_layout [OF assms] contents_layout_hash [OF buf d]
      contents_layout_body [OF buf d] hexEncode_inject)

subsection \<open>Decoding a sequence of stored records\<close>

lemma length_raw_layout:
  assumes "well_sized r"
  shows "length (raw_layout r) = 37 + length (fst (snd r)) + length (snd (snd r))"
  using assms by (simp add: raw_layout_def well_sized_def length_layout)

lemma decode_record_raw:
  assumes "byteOffset a = 0" "byteLength a = length (h ! buffer a)"
    and "h ! buffer a = pre @ raw_layout r @ post" and "well_sized r"
  shows "decode_record H h a (length pre) =
         (if fst r \<noteq> H (snd (snd r)) then Inl Error
          else Inr ((utfDecode (fst (snd r)),
                     \<lparr>buffer = buffer a,
                      byteOffset = length pre + 37 + length (fst (snd r)),
                      byteLength = length (snd (snd r))\<rparr>),
                    length (pre @ raw_layout r)))"
proof -
  from assms(4) have l: "length (pre @ raw_layout r)
      = length pre + 37 + length (fst (snd r)) + length (snd (snd r))"
    by (simp add: length_raw_layout)
  show ?thesis
    unfolding l using assms
    by (intro decode_record_layout) (simp_all add: raw_layout_def well_sized_def)
qed

lemma contents_raw_body:
  assumes "h ! p = pre @ raw_layout r @ post" "well_sized r"
  shows "contents h \<lparr>buffer = p, byteOffset = length pre + 37 + length (fst (snd r)),
                     byteLength = length (snd (snd r))\<rparr> = snd (snd r)"
proof (rule contents_layout_body)
  show "h ! p = pre @ layout (fst r) (fst (snd r)) (snd (snd r)) @ post"
    using assms(1) by (simp add: raw_layout_def)
  show "length (fst r) = 32"
    using assms(2) by (simp add: well_sized_def)
qed

lemma decode_loop_raw:
  assumes "byteOffset a = 0" "byteLength a = length (h ! buffer a)"
    and "h ! buffer a = pre @ concat (map raw_layout rs)"
    and "\<forall>r \<in> set rs. well_sized r \<and> fst r = H (snd (snd r))"
  shows "\<exists>fs. decode_loop H h a (length pre) acc = Some (Inr (acc @ fs)) \<and>
              map (\<lambda>f. (fst f, contents h (snd f))) fs
              = map (\<lambda>r. (utfDecode (fst (snd r)), snd (snd r))) rs"
  using assms(3,4)
proof (induction rs arbitrary: pre acc)
  case Nil
  with assms(2) have "\<not> length pre < byteLength a" by simp
  then have "decode_loop H h a (length pre) acc = Some (Inr acc)"
    by (subst decode_loop.simps) simp
  then show ?case by simp
next
  case (Cons r rs)
  let ?v = "\<lparr>buffer = buffer a, byteOffset = length pre + 37 + length (fst (snd r)),
             byteLength = length (snd (snd r))\<rparr>"
  let ?f = "(utfDecode (fst (snd r)), ?v)"
  from Cons.prems have r: "well_sized r" "fst r = H (snd (snd r))"
    and buf: "h ! buffer a = pre @ raw_layout r @ concat (map raw_layout rs)"
    by simp_all
  from r(1) buf assms(2) have lt: "length pre < byteLength a"
    by (simp add: length_raw_layout)
  have step: "decode_record H h a (length pre) = Inr (?f, length (pre @ raw_layout r))"
    using decode_record_raw [OF assms(1,2) buf r(1), of H] r(2) by simp
  have "\<exists>fs. decode_loop H h a (length (pre @ raw_layout r)) (acc @ [?f])
               = Some (Inr ((acc @ [?f]) @ fs)) \<and>
             map (\<lambda>f. (fst f, contents h (snd f))) fs
             = map (\<lambda>r. (utfDecode (fst (snd r)), snd (snd r))) rs"
    using Cons.prems by (intro Cons.IH) simp_all
  then obtain fs where
    fs: "decode_loop H h a (length (pre @ raw_layout r)) (acc @ [?f]) = Some (Inr ((acc @ [?f]) @ fs))"
      "map (\<lambda>f. (fst f, contents h (snd f))) fs = map (\<lambda>r. (utfDecode (fst (snd r)), snd (snd r))) rs"
    by blast
  have "decode_loop H h a (length pre) acc = Some (Inr (acc @ ?f # fs))"
    using lt step fs(1) by (subst decode_loop.simps) simp
  moreover have "contents h ?v = snd (snd r)"
    using buf r(1) by (rule contents_raw_body)
  ultimately show ?case
    using fs(2) by (intro exI [of _ "?f # fs"]) simp
qed


subsection \<open>The cursors the loop visits\<close>

lemma decode_loop_visit:
  assumes "visit H h a k = Some i"
  shows "\<exists>fs. decode_loop H h a 0 [] = decode_loop H h a i fs"
  using assms
proof (induction k arbitrary: i)
  case 0
  then show ?case by auto
next
  case (Suc k)
  from Suc.prems obtain j f where j: "visit H h a k = Some j" "j < byteLength a"
    and step: "decode_record H h a j = Inr (f, i)"
    by (auto split: option.splits if_splits sum.splits)
  from Suc.IH [OF j(1)] obtain fs where "decode_loop H h a 0 [] = decode_loop H h a j fs"
    by blast
  also from j(2) step have "decode_loop H h a j fs = decode_loop H h a i (fs @ [f])"
    by (subst decode_loop.simps) simp
  finally show ?case by blast
qed

lemma minipackDecode_error_at:
  assumes "visit H h a k = Some i" "i < byteLength a" "decode_record H h a i = Inl e"
  shows "minipackDecode H h a = Some (Inl e)"
proof -
  from decode_loop_visit [OF assms(1)] obtain fs where
    "decode_loop H h a 0 [] = decode_loop H h a i fs" by blast
  also from assms(2,3) have "decode_loop H h a i fs = Some (Inl e)"
    by (subst decode_loop.simps) simp
  finally show ?thesis by (simp add: minipackDecode_def)
qed



subsection \<open>Concrete evaluations\<close>

lemma utfEncode_a_txt: "utfEncode a_txt = a_txt_bytes"
  by (simp add: utfEncode_def a_txt_def a_txt_bytes_def is_high_def is_low_def utf8_bytes_def)

lemma utfDecode_a_txt: "utfDecode a_txt_bytes = a_txt"
  by (simp add: utfDecode_def a_txt_def a_txt_bytes_def strip_bom_def utf16_units_def)

lemma map_succ_neq:
  fixes xs :: "byte list"
  assumes "xs \<noteq> []"
  shows "map (\<lambda>x. x + 1) xs \<noteq> xs"
  using assms by (cases xs) simp_all

lemma sha256_nonempty: "sha256 m \<noteq> []"
proof
  assume "sha256 m = []"
  then have "length (sha256 m) = length ([] :: byte list)" by (simp only:)
  then show False by simp
qed

lemma decode_record_zero_lengths:
  "decode_record sha256 [sha256 [] @ [0, 0, 0, 0, 0]] \<lparr>buffer = 0, byteOffset = 0, byteLength = 37\<rparr> 0
   = Inr (([], \<lparr>buffer = 0, byteOffset = 37, byteLength = 0\<rparr>), 37)"
proof -
  let ?a = "\<lparr>buffer = 0, byteOffset = 0, byteLength = 37\<rparr>"
  let ?h = "[sha256 [] @ [0, 0, 0, 0, 0]] :: heap"
  have "decode_record sha256 ?h ?a (length ([] :: byte list)) =
        (if sha256 [] \<noteq> sha256 [] then Inl Error
         else Inr ((utfDecode [], \<lparr>buffer = buffer ?a, byteOffset = length ([] :: byte list) + 37 + length ([] :: byte list),
                    byteLength = length ([] :: byte list)\<rparr>),
                   length ([] :: byte list) + 37 + length ([] :: byte list) + length ([] :: byte list)))"
    by (rule decode_record_layout [where post = "[]"]) (simp_all add: layout_def be32_def)
  then show ?thesis
    by (simp add: utfDecode_def strip_bom_def)
qed

subsection \<open>Encoding followed by decoding\<close>

lemma of_nat_mod_256: "(of_nat (n mod 256) :: byte) = of_nat n"
  by (rule word_unat_eq_iff [THEN iffD2]) (simp add: unat_of_nat8)

lemma be32_mod: "be32 (v mod 4294967296) = be32 v"
  by (simp add: be32_def)

lemma stored_explicit:
  assumes "valid_view h (snd f)"
  shows "stored H h f =
         H (contents h (snd f)) @ [of_nat (length (utfEncode (fst f)) mod 256)]
         @ be32 (byteLength (snd f) mod 2 ^ 32) @ utfEncode (fst f) @ contents h (snd f)"
  using assms by (simp add: stored_def layout_def of_nat_mod_256 be32_mod length_contents)

lemma stored_raw:
  "stored H h = (\<lambda>f. raw_layout (H (contents h (snd f)), utfEncode (fst f), contents h (snd f)))"
  by (rule ext) (simp add: stored_def raw_layout_def)

lemma decode_stored:
  assumes valid: "\<forall>f \<in> set fs. valid_view h (snd f)"
    and H: "\<forall>b. length (H b) = 32"
    and sizes: "\<forall>f \<in> set fs. length (utfEncode (fst f)) \<le> 255 \<and> byteLength (snd f) \<le> 2 ^ 32 - 1"
  shows "\<exists>fs'. minipackDecode H (h @ [concat (map (stored H h) fs)])
                 \<lparr>buffer = length h, byteOffset = 0, byteLength = archive_size fs\<rparr> = Some (Inr fs')
              \<and> map (\<lambda>f. (fst f, contents (h @ [concat (map (stored H h) fs)]) (snd f))) fs'
                = map (\<lambda>f. (utfDecode (utfEncode (fst f)), contents h (snd f))) fs"
proof -
  let ?raw = "\<lambda>f. (H (contents h (snd f)), utfEncode (fst f), contents h (snd f))"
  let ?A = "concat (map (stored H h) fs)"
  let ?h' = "h @ [?A]"
  let ?a = "\<lparr>buffer = length h, byteOffset = 0, byteLength = archive_size fs\<rparr>"
  have len: "length ?A = archive_size fs"
    using valid H by (intro length_concat_stored) simp_all
  have A: "?A = concat (map raw_layout (map ?raw fs))"
    by (simp add: stored_raw comp_def)
  have ok: "\<forall>r \<in> set (map ?raw fs). well_sized r \<and> fst r = H (snd (snd r))"
    using valid H sizes by (auto simp: well_sized_def length_contents)
  have "\<exists>fs'. decode_loop H ?h' ?a (length ([] :: byte list)) [] = Some (Inr ([] @ fs')) \<and>
          map (\<lambda>f. (fst f, contents ?h' (snd f))) fs'
          = map (\<lambda>r. (utfDecode (fst (snd r)), snd (snd r))) (map ?raw fs)"
  proof (rule decode_loop_raw)
    show "byteLength ?a = length (?h' ! buffer ?a)" by (simp add: len)
    show "?h' ! buffer ?a = [] @ concat (map raw_layout (map ?raw fs))"
      using A by simp
  qed (use ok in simp_all)
  then show ?thesis by (simp add: minipackDecode_def comp_def)
qed

subsection \<open>More concrete evaluations\<close>

lemma scalars_ascii:
  assumes "\<forall>u \<in> set s. unat u < 128"
  shows "scalars s = map unat s"
  using assms by (induction s rule: scalars.induct) (auto simp: is_high_def is_low_def)

lemma utfEncode_ascii:
  assumes "\<forall>u \<in> set s. unat u < 128"
  shows "utfEncode s = map (\<lambda>u. of_nat (unat u)) s"
proof -
  have "concat (map utf8_bytes (map unat s)) = map (\<lambda>u. of_nat (unat u)) s"
    using assms by (induction s) (simp_all add: utf8_bytes_def)
  with assms show ?thesis by (simp add: utfEncode_def scalars_ascii)
qed

lemma utfEncode_256_a: "utfEncode (replicate 256 0x61) = replicate 256 0x61"
  by (subst utfEncode_ascii) simp_all

lemma utfEncode_bom: "utfEncode [0xFEFF] = [0xEF, 0xBB, 0xBF]"
  by (simp add: utfEncode_def is_high_def is_low_def utf8_bytes_def)

lemma utfDecode_bom: "utfDecode [0xEF, 0xBB, 0xBF] = []"
  by (simp add: utfDecode_def strip_bom_def)

lemma utfEncode_a: "utfEncode [0x61] = [0x61]"
  by (subst utfEncode_ascii) simp_all

lemma utfEncode_b: "utfEncode [0x62] = [0x62]"
  by (subst utfEncode_ascii) simp_all

lemma be32_0: "be32 0 = [0, 0, 0, 0]"
  by (simp add: be32_def)

lemma encode_a_txt:
  "minipackEncode sha256 [[1, 2, 3]] [(a_txt, \<lparr>buffer = 0, byteOffset = 0, byteLength = 3\<rparr>)]
   = Inr ([[1, 2, 3], sha256 [1, 2, 3] @ [5, 0, 0, 0, 3] @ a_txt_bytes @ [1, 2, 3]],
          \<lparr>buffer = 1, byteOffset = 0, byteLength = 45\<rparr>)"
proof -
  let ?fs = "[(a_txt, \<lparr>buffer = 0, byteOffset = 0, byteLength = 3\<rparr>)]"
  have "minipackEncode sha256 [[1, 2, 3]] ?fs =
        Inr ([[1, 2, 3]] @ [concat (map (stored sha256 [[1, 2, 3]]) ?fs)],
             \<lparr>buffer = length [[1, 2, 3 :: byte]], byteOffset = 0, byteLength = archive_size ?fs\<rparr>)"
    by (rule minipackEncode_stored) (simp_all add: valid_view_def)
  then show ?thesis
    by (simp add: stored_def layout_def contents_def utfEncode_a_txt a_txt_bytes_def be32_def
        archive_size_sum)
qed

subsection \<open>Changing one byte of an archive\<close>









subsection \<open>The text codec on well-formed strings\<close>

lemma unat_unit_less: "unat (u :: 16 word) < 65536"
proof -
  have "unat u < 2 ^ LENGTH(16)" by (rule unsigned_less)
  then show ?thesis by simp
qed

lemma of_nat_unat16: "(of_nat (unat u) :: 16 word) = u"
  by simp

lemma utf16_units_pair:
  assumes "is_high u" "is_low l"
  shows "utf16_units (0x10000 + (unat u - 0xD800) * 1024 + (unat l - 0xDC00)) = [u, l]"
proof -
  let ?x = "unat u - 0xD800" and ?y = "unat l - 0xDC00"
  from assms have y: "?y < 1024" and u: "0xD800 + ?x = unat u" and l: "0xDC00 + ?y = unat l"
    by (auto simp: is_high_def is_low_def)
  from y have "(?x * 1024 + ?y) div 1024 = ?x" and "(?x * 1024 + ?y) mod 1024 = ?y"
    by simp_all
  then have "utf16_units (0x10000 + ?x * 1024 + ?y)
             = [of_nat (0xD800 + ?x), of_nat (0xDC00 + ?y)]"
    by (simp add: utf16_units_def add.assoc)
  then show ?thesis by (simp only: u l of_nat_unat16)
qed

lemma utf16_units_single:
  shows "utf16_units (unat (u :: 16 word)) = [u]"
  using unat_unit_less [of u] by (simp add: utf16_units_def)

lemma utf16_scalars:
  assumes "well_formed s"
  shows "concat (map utf16_units (scalars s)) = s"
  using assms
proof (induction s rule: scalars.induct)
  case 1
  then show ?case by simp
next
  case (2 u)
  then show ?case by (simp add: utf16_units_single)
next
  case (3 u l us)
  show ?case
  proof (cases "is_high u")
    case True
    with "3.prems" have l: "is_low l" and wf: "well_formed us" by simp_all
    from True l wf "3.IH"(1) show ?thesis
      by (simp add: utf16_units_pair del: utf16_units_def)
  next
    case False
    with "3.prems" have nl: "\<not> is_low u" and wf: "well_formed (l # us)" by simp_all
    from False nl wf "3.IH"(2) show ?thesis
      by (simp add: utf16_units_single)
  qed
qed

lemma scalars_scalar_value: "\<forall>cp \<in> set (scalars s). scalar_value cp"
proof (induction s rule: scalars.induct)
  case 1
  then show ?case by simp
next
  case (2 u)
  show ?case
    using unat_unit_less [of u]
    by (auto simp: scalar_value_def is_high_def is_low_def)
next
  case (3 u l us)
  have pair: "scalar_value (0x10000 + (unat u - 0xD800) * 1024 + (unat l - 0xDC00))"
    if "is_high u" "is_low l"
  proof -
    from that have "unat u - 0xD800 < 1024" "unat l - 0xDC00 < 1024"
      by (auto simp: is_high_def is_low_def)
    then show ?thesis by (simp add: scalar_value_def)
  qed
  have single: "scalar_value (if is_high u \<or> is_low u then 0xFFFD else unat u)"
    using unat_unit_less [of u]
    by (auto simp: scalar_value_def is_high_def is_low_def)
  show ?case
  proof (cases "is_high u \<and> is_low l")
    case True
    with "3.IH"(1) pair show ?thesis by simp
  next
    case False
    with "3.IH"(2) single show ?thesis by auto
  qed
qed

lemma unat_of_nat_byte:
  assumes "n < 256"
  shows "unat (of_nat n :: byte) = n"
  using assms by (simp add: unat_of_nat8)

lemma mod_shift: "(c * n + a) mod n = a mod (n::nat)"
  by simp

lemma ascii_step:
  assumes "unat b = x" "x < 128"
  shows "utf8_decode cp seen 0 lo up (b # bs) = x # utf8_decode 0 0 0 0x80 0xBF bs"
  using assms by simp

lemma lead2_step:
  assumes "unat b = 192 + a" "2 \<le> a" "a < 32"
  shows "utf8_decode cp seen 0 lo up (b # bs) = utf8_decode a 0 1 lo up bs"
proof -
  from assms(3) mod_shift [of 6 32 a] have "(192 + a) mod 32 = a" by simp
  with assms show ?thesis by simp
qed

lemma lead3_step:
  assumes "unat b = 224 + a" "a < 16"
  shows "utf8_decode cp seen 0 lo up (b # bs) =
         utf8_decode a 0 2 (if a = 0 then 0xA0 else lo) (if a = 13 then 0x9F else up) bs"
proof -
  from assms(2) mod_shift [of 14 16 a] have "(224 + a) mod 16 = a" by simp
  with assms show ?thesis by simp
qed

lemma lead4_step:
  assumes "unat b = 240 + a" "a \<le> 4"
  shows "utf8_decode cp seen 0 lo up (b # bs) =
         utf8_decode a 0 3 (if a = 0 then 0x90 else lo) (if a = 4 then 0x8F else up) bs"
proof -
  from assms(2) mod_shift [of 30 8 a] have "(240 + a) mod 8 = a" by simp
  with assms show ?thesis by simp
qed

lemma cont_step_more:
  assumes "unat b = 128 + y" "y < 64" "lo \<le> 128 + y" "128 + y \<le> up"
    and "needed \<noteq> 0" "seen + 1 \<noteq> needed"
  shows "utf8_decode cp seen needed lo up (b # bs) =
         utf8_decode (cp * 64 + y) (seen + 1) needed 0x80 0xBF bs"
proof -
  from assms(2) mod_shift [of 2 64 y] have "(128 + y) mod 64 = y" by simp
  with assms show ?thesis by (simp add: Let_def)
qed

lemma cont_step_last:
  assumes "unat b = 128 + y" "y < 64" "lo \<le> 128 + y" "128 + y \<le> up"
    and "needed \<noteq> 0" "seen + 1 = needed"
  shows "utf8_decode cp seen needed lo up (b # bs) =
         (cp * 64 + y) # utf8_decode 0 0 0 0x80 0xBF bs"
proof -
  from assms(2) mod_shift [of 2 64 y] have "(128 + y) mod 64 = y" by simp
  with assms show ?thesis by (simp add: Let_def)
qed

lemma range_two: "128 \<le> cp \<Longrightarrow> cp < 2048 \<Longrightarrow> 2 \<le> cp div 64 \<and> cp div 64 < (32::nat)"
  by (simp add: less_mult_imp_div_less less_eq_div_iff_mult_less_eq)

lemma range_three: "2048 \<le> cp \<Longrightarrow> cp < 65536 \<Longrightarrow> 32 \<le> cp div 64 \<and> cp div 64 < (1024::nat)"
  by (simp add: less_mult_imp_div_less less_eq_div_iff_mult_less_eq)

lemma range_three_lead: "x < 1024 \<Longrightarrow> x div 64 < (16::nat)"
  by (simp add: less_mult_imp_div_less)

lemma range_three_low: "32 \<le> x \<Longrightarrow> x div 64 = 0 \<Longrightarrow> 32 \<le> x mod (64::nat)"
  by (simp add: div_eq_0_iff)

lemma range_three_gap: "\<not> (55296 \<le> cp \<and> cp \<le> 57343) \<Longrightarrow> cp div 64 < 864 \<or> 896 \<le> cp div (64::nat)"
  by (simp add: less_mult_imp_div_less less_eq_div_iff_mult_less_eq) arith

lemma range_three_high: "x < 864 \<or> 896 \<le> x \<Longrightarrow> x div 64 = 13 \<Longrightarrow> x mod (64::nat) \<le> 31"
proof -
  assume 1: "x < 864 \<or> 896 \<le> x" and 2: "x div 64 = 13"
  have "x = x div 64 * 64 + x mod 64" by simp
  with 2 have "x = 832 + x mod 64" by simp
  moreover have "x mod 64 < 64" by simp
  ultimately show ?thesis using 1 by linarith
qed

lemma range_four_low: "16 \<le> y \<Longrightarrow> y div 64 = 0 \<Longrightarrow> 16 \<le> y mod (64::nat)"
  by (simp add: div_eq_0_iff)

lemma range_four_high: "y < 272 \<Longrightarrow> y div 64 = 4 \<Longrightarrow> y mod (64::nat) \<le> 15"
proof -
  assume 1: "y < 272" and 2: "y div 64 = 4"
  have "y = y div 64 * 64 + y mod 64" by simp
  with 2 have "y = 256 + y mod 64" by simp
  with 1 show ?thesis by linarith
qed

lemma range_four: "65536 \<le> cp \<Longrightarrow> cp < 1114112 \<Longrightarrow> 1024 \<le> cp div 64 \<and> cp div 64 < (17408::nat)"
  by (simp add: less_mult_imp_div_less less_eq_div_iff_mult_less_eq)

lemma range_four_mid: "1024 \<le> x \<Longrightarrow> x < 17408 \<Longrightarrow> 16 \<le> x div 64 \<and> x div 64 < (272::nat)"
  by (simp add: less_mult_imp_div_less less_eq_div_iff_mult_less_eq)

lemma range_four_lead: "y < 272 \<Longrightarrow> y div 64 \<le> (4::nat)"
proof -
  assume "y < 272"
  then have "y div 64 < 5" by (simp add: less_mult_imp_div_less)
  then show ?thesis by simp
qed

lemma utf8_decode_one:
  assumes "cp < 128"
  shows "utf8_decode 0 0 0 0x80 0xBF (utf8_bytes cp @ rest) = cp # utf8_decode 0 0 0 0x80 0xBF rest"
proof -
  from assms have "unat (of_nat cp :: byte) = cp" by (intro unat_of_nat_byte) simp
  with assms show ?thesis
    by (simp only: utf8_bytes_def if_True append_Cons append_Nil ascii_step)
qed

lemma utf8_decode_two:
  assumes "128 \<le> cp" "cp < 2048"
  shows "utf8_decode 0 0 0 0x80 0xBF (utf8_bytes cp @ rest) = cp # utf8_decode 0 0 0 0x80 0xBF rest"
proof -
  define a where "a = cp div 64"
  define l where "l = cp mod 64"
  define b1 :: byte where "b1 = of_nat (192 + a)"
  define b2 :: byte where "b2 = of_nat (128 + l)"
  from assms have a: "2 \<le> a" "a < 32" unfolding a_def using range_two [of cp] by simp_all
  have l: "l < 64" unfolding l_def by simp
  have cp: "a * 64 + l = cp" unfolding a_def l_def by simp
  from a have u1: "unat b1 = 192 + a" unfolding b1_def by (intro unat_of_nat_byte) simp
  from l have u2: "unat b2 = 128 + l" unfolding b2_def by (intro unat_of_nat_byte) simp
  from assms have bytes: "utf8_bytes cp = [b1, b2]"
    by (simp add: utf8_bytes_def b1_def b2_def a_def l_def)
  have "utf8_decode 0 0 0 0x80 0xBF (b1 # b2 # rest) = utf8_decode a 0 1 0x80 0xBF (b2 # rest)"
    using u1 a by (rule lead2_step)
  also have "\<dots> = (a * 64 + l) # utf8_decode 0 0 0 0x80 0xBF rest"
    using u2 l by (rule cont_step_last) (use l in simp_all)
  finally show ?thesis by (simp add: bytes cp)
qed

lemma utf8_decode_three:
  assumes "2048 \<le> cp" "cp < 65536" "\<not> (55296 \<le> cp \<and> cp \<le> 57343)"
  shows "utf8_decode 0 0 0 0x80 0xBF (utf8_bytes cp @ rest) = cp # utf8_decode 0 0 0 0x80 0xBF rest"
proof -
  define x where "x = cp div 64"
  define a where "a = x div 64"
  define m where "m = x mod 64"
  define l where "l = cp mod 64"
  define b1 :: byte where "b1 = of_nat (224 + a)"
  define b2 :: byte where "b2 = of_nat (128 + m)"
  define b3 :: byte where "b3 = of_nat (128 + l)"
  have a4096: "cp div 4096 = a" unfolding a_def x_def by (simp add: div_mult2_eq [symmetric])
  from assms have x: "32 \<le> x" "x < 1024" unfolding x_def using range_three [of cp] by simp_all
  from x(2) have a: "a < 16" unfolding a_def by (rule range_three_lead)
  have m: "m < 64" and l: "l < 64" unfolding m_def l_def by simp_all
  have xm: "a * 64 + m = x" unfolding a_def m_def by simp
  have cp: "x * 64 + l = cp" unfolding x_def l_def by simp
  from x(1) have lo: "a = 0 \<Longrightarrow> 32 \<le> m" unfolding a_def m_def by (rule range_three_low)
  from assms(3) have "x < 864 \<or> 896 \<le> x" unfolding x_def by (rule range_three_gap)
  then have up: "a = 13 \<Longrightarrow> m \<le> 31" unfolding a_def m_def by (rule range_three_high)
  from a have u1: "unat b1 = 224 + a" unfolding b1_def by (intro unat_of_nat_byte) simp
  from m have u2: "unat b2 = 128 + m" unfolding b2_def by (intro unat_of_nat_byte) simp
  from l have u3: "unat b3 = 128 + l" unfolding b3_def by (intro unat_of_nat_byte) simp
  from assms have bytes: "utf8_bytes cp = [b1, b2, b3]"
    by (simp add: utf8_bytes_def b1_def b2_def b3_def a4096 m_def l_def x_def)
  have "utf8_decode 0 0 0 0x80 0xBF (b1 # b2 # b3 # rest)
        = utf8_decode a 0 2 (if a = 0 then 0xA0 else 0x80) (if a = 13 then 0x9F else 0xBF) (b2 # b3 # rest)"
    using u1 a by (rule lead3_step)
  also have "\<dots> = utf8_decode (a * 64 + m) (0 + 1) 2 0x80 0xBF (b3 # rest)"
    using u2 m
  proof (rule cont_step_more)
    show "(if a = 0 then 0xA0 else 0x80) \<le> 128 + m" using lo by simp
    show "128 + m \<le> (if a = 13 then 0x9F else 0xBF)" using up m by simp
  qed simp_all
  also have "\<dots> = ((a * 64 + m) * 64 + l) # utf8_decode 0 0 0 0x80 0xBF rest"
    using u3 l by (rule cont_step_last) (use l in simp_all)
  finally show ?thesis by (simp add: bytes xm cp)
qed

lemma utf8_decode_four:
  assumes "65536 \<le> cp" "cp < 1114112"
  shows "utf8_decode 0 0 0 0x80 0xBF (utf8_bytes cp @ rest) = cp # utf8_decode 0 0 0 0x80 0xBF rest"
proof -
  define x where "x = cp div 64"
  define y where "y = x div 64"
  define a where "a = y div 64"
  define m1 where "m1 = y mod 64"
  define m2 where "m2 = x mod 64"
  define l where "l = cp mod 64"
  define b1 :: byte where "b1 = of_nat (240 + a)"
  define b2 :: byte where "b2 = of_nat (128 + m1)"
  define b3 :: byte where "b3 = of_nat (128 + m2)"
  define b4 :: byte where "b4 = of_nat (128 + l)"
  have y4096: "cp div 4096 = y" unfolding y_def x_def by (simp add: div_mult2_eq [symmetric])
  have a262144: "cp div 262144 = a" unfolding a_def y_def x_def by (simp add: div_mult2_eq [symmetric])
  from assms have x: "1024 \<le> x" "x < 17408" unfolding x_def using range_four [of cp] by simp_all
  from x have y: "16 \<le> y" "y < 272" unfolding y_def using range_four_mid [of x] by simp_all
  from y(2) have a: "a \<le> 4" unfolding a_def by (rule range_four_lead)
  have m1: "m1 < 64" and m2: "m2 < 64" and l: "l < 64" unfolding m1_def m2_def l_def by simp_all
  have ym: "a * 64 + m1 = y" unfolding a_def m1_def by simp
  have xm: "y * 64 + m2 = x" unfolding y_def m2_def by simp
  have cp: "x * 64 + l = cp" unfolding x_def l_def by simp
  from y(1) have lo: "a = 0 \<Longrightarrow> 16 \<le> m1" unfolding a_def m1_def by (rule range_four_low)
  from y(2) have up: "a = 4 \<Longrightarrow> m1 \<le> 15" unfolding a_def m1_def by (rule range_four_high)
  from a have u1: "unat b1 = 240 + a" unfolding b1_def by (intro unat_of_nat_byte) simp
  from m1 have u2: "unat b2 = 128 + m1" unfolding b2_def by (intro unat_of_nat_byte) simp
  from m2 have u3: "unat b3 = 128 + m2" unfolding b3_def by (intro unat_of_nat_byte) simp
  from l have u4: "unat b4 = 128 + l" unfolding b4_def by (intro unat_of_nat_byte) simp
  from assms have bytes: "utf8_bytes cp = [b1, b2, b3, b4]"
    by (simp add: utf8_bytes_def b1_def b2_def b3_def b4_def a262144 y4096 m1_def m2_def l_def x_def)
  have "utf8_decode 0 0 0 0x80 0xBF (b1 # b2 # b3 # b4 # rest)
        = utf8_decode a 0 3 (if a = 0 then 0x90 else 0x80) (if a = 4 then 0x8F else 0xBF)
            (b2 # b3 # b4 # rest)"
    using u1 a by (rule lead4_step)
  also have "\<dots> = utf8_decode (a * 64 + m1) (0 + 1) 3 0x80 0xBF (b3 # b4 # rest)"
    using u2 m1
  proof (rule cont_step_more)
    show "(if a = 0 then 0x90 else 0x80) \<le> 128 + m1" using lo by simp
    show "128 + m1 \<le> (if a = 4 then 0x8F else 0xBF)" using up m1 by simp
  qed simp_all
  also have "\<dots> = utf8_decode ((a * 64 + m1) * 64 + m2) (0 + 1 + 1) 3 0x80 0xBF (b4 # rest)"
    using u3 m2 by (rule cont_step_more) (use m2 in simp_all)
  also have "\<dots> = (((a * 64 + m1) * 64 + m2) * 64 + l) # utf8_decode 0 0 0 0x80 0xBF rest"
    using u4 l by (rule cont_step_last) (use l in simp_all)
  finally show ?thesis by (simp add: bytes ym xm cp)
qed

lemma utf8_decode_scalar:
  assumes "scalar_value cp"
  shows "utf8_decode 0 0 0 0x80 0xBF (utf8_bytes cp @ rest) = cp # utf8_decode 0 0 0 0x80 0xBF rest"
proof -
  consider "cp < 128" | "128 \<le> cp" "cp < 2048" | "2048 \<le> cp" "cp < 65536" | "65536 \<le> cp"
    by linarith
  then show ?thesis
  proof cases
    case 1
    then show ?thesis by (rule utf8_decode_one)
  next
    case 2
    then show ?thesis by (rule utf8_decode_two)
  next
    case 3
    moreover from assms have "\<not> (55296 \<le> cp \<and> cp \<le> 57343)" by (simp add: scalar_value_def)
    ultimately show ?thesis by (rule utf8_decode_three)
  next
    case 4
    moreover from assms have "cp < 1114112" by (simp add: scalar_value_def)
    ultimately show ?thesis by (rule utf8_decode_four)
  qed
qed

lemma utf8_decode_concat:
  assumes "\<forall>cp \<in> set cps. scalar_value cp"
  shows "utf8_decode 0 0 0 0x80 0xBF (concat (map utf8_bytes cps)) = cps"
  using assms by (induction cps) (simp_all add: utf8_decode_scalar)

lemma utf8_decode_utfEncode: "utf8_decode 0 0 0 0x80 0xBF (utfEncode s) = scalars s"
  unfolding utfEncode_def by (rule utf8_decode_concat) (rule scalars_scalar_value)

lemma unit_of_65279:
  assumes "unat (u :: 16 word) = 65279"
  shows "u = 0xFEFF"
proof -
  have "unat (0xFEFF :: 16 word) = 65279" by simp
  with assms have "unat u = unat (0xFEFF :: 16 word)" by simp
  then show ?thesis by (rule word_unat_eq_iff [THEN iffD2])
qed

lemma hd_scalars_bom:
  assumes "scalars s = 65279 # cps"
  shows "s \<noteq> [] \<and> hd s = 0xFEFF"
proof (cases s rule: scalars.cases)
  case 1
  with assms show ?thesis by simp
next
  case (2 u)
  with assms show ?thesis by (auto split: if_splits intro: unit_of_65279)
next
  case (3 u l us)
  with assms show ?thesis by (auto split: if_splits intro: unit_of_65279)
qed

lemma strip_bom_scalars:
  assumes "s = [] \<or> hd s \<noteq> 0xFEFF"
  shows "strip_bom (scalars s) = scalars s"
proof (cases "scalars s")
  case Nil
  then show ?thesis by (simp add: strip_bom_def)
next
  case (Cons c cs)
  have "c \<noteq> 65279"
  proof
    assume "c = 65279"
    with Cons have "scalars s = 65279 # cs" by simp
    from hd_scalars_bom [OF this] assms show False by simp
  qed
  with Cons show ?thesis by (simp add: strip_bom_def)
qed

lemma utf_round_trip:
  assumes "well_formed s" and "s = [] \<or> hd s \<noteq> 0xFEFF"
  shows "utfDecode (utfEncode s) = s"
  using assms
  by (simp add: utfDecode_def utf8_decode_utfEncode strip_bom_scalars utf16_scalars)

lemma lone_surrogate_replaced: "utfDecode (utfEncode [0xD800]) = [0xFFFD]"
proof -
  have "scalars [0xD800] = [0xFFFD]" by (simp add: is_high_def)
  then show ?thesis
    by (simp add: utfDecode_def utf8_decode_utfEncode strip_bom_def utf16_units_def)
qed

lemma utfEncode_lone: "utfEncode [0xD800] = [0xEF, 0xBF, 0xBD]"
  by (simp add: utfEncode_def is_high_def utf8_bytes_def)

lemma utfDecode_replacement: "utfDecode [0xEF, 0xBF, 0xBD] = [0xFFFD]"
  using lone_surrogate_replaced by (simp add: utfEncode_lone)

lemma decode_one_record:
  assumes "length d = 32" and "length n < 256" and "length b < 2 ^ 32" and "d = H b"
    and "h ! p = layout d n b" and "byteLength a = length (layout d n b)"
    and "byteOffset a = 0" and "buffer a = p"
  shows "minipackDecode H h a =
         Some (Inr [(utfDecode n, \<lparr>buffer = p, byteOffset = 37 + length n, byteLength = length b\<rparr>)])"
proof -
  let ?w = "\<lparr>buffer = p, byteOffset = 37 + length n, byteLength = length b\<rparr>"
  have len: "length (layout d n b) = 37 + length n + length b"
    using assms(1) by (simp add: length_layout)
  have "decode_record H h a (length ([] :: byte list)) =
        (if d \<noteq> H b then Inl Error
         else Inr ((utfDecode n,
                    \<lparr>buffer = buffer a, byteOffset = length ([] :: byte list) + 37 + length n,
                     byteLength = length b\<rparr>),
                   length ([] :: byte list) + 37 + length n + length b))"
    using assms by (intro decode_record_layout [where post = "[]"]) simp_all
  with assms have step: "decode_record H h a 0 = Inr ((utfDecode n, ?w), 37 + length n + length b)"
    by simp
  have "decode_loop H h a 0 [] = decode_loop H h a (37 + length n + length b) [(utfDecode n, ?w)]"
    using step assms(6) len by (subst decode_loop.simps) simp
  also have "\<dots> = Some (Inr [(utfDecode n, ?w)])"
    using assms(6) len by (subst decode_loop.simps) simp
  finally show ?thesis by (simp add: minipackDecode_def)
qed

section \<open>The claims\<close>

subsection \<open>C1: round trip\<close>

text \<open>
  C1, as the spec states it, fails on two kinds of names, both within the size limit.
  \<^verbatim>\<open>new TextDecoder().decode\<close> drops a leading byte order mark: the entry whose name is
  the single character U+FEFF (3 bytes in UTF-8), with an empty body, is encoded without
  an error, and decoding the archive returns one entry whose name is the empty string.
  \<^verbatim>\<open>new TextEncoder().encode\<close> writes an unpaired surrogate as U+FFFD: the entry whose
  name is the single code unit D800 comes back with the name U+FFFD.
\<close>

theorem C1_counterexample:
  "length (utfEncode [0xFEFF]) = 3
   \<and> minipackEncode sha256 [[]] [([0xFEFF], \<lparr>buffer = 0, byteOffset = 0, byteLength = 0\<rparr>)]
     = Inr ([[], sha256 [] @ [3, 0, 0, 0, 0, 0xEF, 0xBB, 0xBF]],
            \<lparr>buffer = 1, byteOffset = 0, byteLength = 40\<rparr>)
   \<and> minipackDecode sha256 [[], sha256 [] @ [3, 0, 0, 0, 0, 0xEF, 0xBB, 0xBF]]
        \<lparr>buffer = 1, byteOffset = 0, byteLength = 40\<rparr>
     = Some (Inr [([], \<lparr>buffer = 1, byteOffset = 40, byteLength = 0\<rparr>)])
   \<and> length (utfEncode [0xD800]) = 3
   \<and> minipackEncode sha256 [[]] [([0xD800], \<lparr>buffer = 0, byteOffset = 0, byteLength = 0\<rparr>)]
     = Inr ([[], sha256 [] @ [3, 0, 0, 0, 0, 0xEF, 0xBF, 0xBD]],
            \<lparr>buffer = 1, byteOffset = 0, byteLength = 40\<rparr>)
   \<and> minipackDecode sha256 [[], sha256 [] @ [3, 0, 0, 0, 0, 0xEF, 0xBF, 0xBD]]
        \<lparr>buffer = 1, byteOffset = 0, byteLength = 40\<rparr>
     = Some (Inr [([0xFFFD], \<lparr>buffer = 1, byteOffset = 40, byteLength = 0\<rparr>)])"
proof -
  let ?v = "\<lparr>buffer = 0, byteOffset = 0, byteLength = 0\<rparr>"
  let ?a = "\<lparr>buffer = 1, byteOffset = 0, byteLength = 40\<rparr>"
  have enc: "minipackEncode sha256 [[]] [(s, ?v)]
             = Inr ([[], sha256 [] @ [3, 0, 0, 0, 0] @ n], ?a)"
    if "utfEncode s = n" "length n = 3" for s n
  proof -
    have "minipackEncode sha256 [[]] [(s, ?v)] =
          Inr ([[]] @ [concat (map (stored sha256 [[]]) [(s, ?v)])],
               \<lparr>buffer = length [[] :: byte list], byteOffset = 0, byteLength = archive_size [(s, ?v)]\<rparr>)"
      by (rule minipackEncode_stored) (simp_all add: valid_view_def)
    with that show ?thesis
      by (simp add: stored_def layout_def contents_def be32_0 archive_size_sum)
  qed
  have dec: "minipackDecode sha256 [[], sha256 [] @ [3, 0, 0, 0, 0] @ n] ?a
             = Some (Inr [(utfDecode n, \<lparr>buffer = 1, byteOffset = 40, byteLength = 0\<rparr>)])"
    if "length n = 3" for n
  proof -
    have "minipackDecode sha256 [[], sha256 [] @ [3, 0, 0, 0, 0] @ n] ?a
          = Some (Inr [(utfDecode n, \<lparr>buffer = 1, byteOffset = 37 + length n,
                                      byteLength = length ([] :: byte list)\<rparr>)])"
      using that
      by (intro decode_one_record [where d = "sha256 []"]) (simp_all add: layout_def be32_0)
    with that show ?thesis by simp
  qed
  from enc [OF utfEncode_bom] enc [OF utfEncode_lone] dec [of "[0xEF, 0xBB, 0xBF]"]
    dec [of "[0xEF, 0xBF, 0xBD]"]
  show ?thesis
    by (simp add: utfEncode_bom utfEncode_lone utfDecode_bom utfDecode_replacement)
qed

text \<open>
  C1, amended. For every sequence of entries in which each name is well formed (has no
  unpaired surrogate), does not start with U+FEFF and has at most 255 bytes in UTF-8,
  and each body has at most \<open>2^32 - 1\<close> bytes, decoding the archive that
  \<^verbatim>\<open>minipackEncode\<close> returns yields a sequence with the same names and the same body
  bytes in the same order.
\<close>

theorem C1_round_trip:
  assumes "\<forall>f \<in> set fs. valid_view h (snd f)" and "\<forall>b. length (H b) = 32"
    and "\<forall>f \<in> set fs. length (utfEncode (fst f)) \<le> 255 \<and> byteLength (snd f) \<le> 2 ^ 32 - 1"
    and "\<forall>f \<in> set fs. well_formed (fst f) \<and> (fst f = [] \<or> hd (fst f) \<noteq> 0xFEFF)"
  shows "\<exists>h' a fs'. minipackEncode H h fs = Inr (h', a)
           \<and> minipackDecode H h' a = Some (Inr fs')
           \<and> map (\<lambda>f. (fst f, contents h' (snd f))) fs' = map (\<lambda>f. (fst f, contents h (snd f))) fs"
proof -
  let ?h' = "h @ [concat (map (stored H h) fs)]"
  let ?a = "\<lparr>buffer = length h, byteOffset = 0, byteLength = archive_size fs\<rparr>"
  have enc: "minipackEncode H h fs = Inr (?h', ?a)"
    using assms(1,2) by (intro minipackEncode_stored) simp_all
  from assms(1,2,3) obtain fs' where dec: "minipackDecode H ?h' ?a = Some (Inr fs')"
    and eq: "map (\<lambda>f. (fst f, contents ?h' (snd f))) fs'
             = map (\<lambda>f. (utfDecode (utfEncode (fst f)), contents h (snd f))) fs"
    using decode_stored [of fs h H] by auto
  from assms(4) have "map (\<lambda>f. (utfDecode (utfEncode (fst f)), contents h (snd f))) fs
                      = map (\<lambda>f. (fst f, contents h (snd f))) fs"
    by (simp add: utf_round_trip)
  with enc dec eq show ?thesis by simp
qed

theorem C1_round_trip_witness:
  "valid_view [[1, 2, 3]] \<lparr>buffer = 0, byteOffset = 0, byteLength = 1\<rparr>
   \<and> valid_view [[1, 2, 3]] \<lparr>buffer = 0, byteOffset = 1, byteLength = 2\<rparr>
   \<and> length (sha256 [1]) = 32 \<and> length (sha256 [2, 3]) = 32
   \<and> length (utfEncode [0x61]) \<le> 255 \<and> length (utfEncode [0x62]) \<le> 255
   \<and> (1::nat) \<le> 2 ^ 32 - 1 \<and> (2::nat) \<le> 2 ^ 32 - 1
   \<and> well_formed [0x61] \<and> well_formed [0x62]
   \<and> hd [0x61 :: 16 word] \<noteq> 0xFEFF \<and> hd [0x62 :: 16 word] \<noteq> 0xFEFF
   \<and> (\<exists>h' a fs'.
         minipackEncode sha256 [[1, 2, 3]]
           [([0x61], \<lparr>buffer = 0, byteOffset = 0, byteLength = 1\<rparr>),
            ([0x62], \<lparr>buffer = 0, byteOffset = 1, byteLength = 2\<rparr>)] = Inr (h', a)
         \<and> minipackDecode sha256 h' a = Some (Inr fs')
         \<and> map (\<lambda>f. (fst f, contents h' (snd f))) fs' = [([0x61], [1]), ([0x62], [2, 3])])"
  using C1_round_trip [of "[([0x61], \<lparr>buffer = 0, byteOffset = 0, byteLength = 1\<rparr>),
      ([0x62], \<lparr>buffer = 0, byteOffset = 1, byteLength = 2\<rparr>)]" "[[1, 2, 3]]" sha256]
  by (simp add: valid_view_def contents_def utfEncode_a utfEncode_b is_high_def is_low_def)

subsection \<open>C2: a digest mismatch\<close>

text \<open>
  C2. If at a cursor that the loop of \<^verbatim>\<open>minipackDecode\<close> reaches the bytes of the stored
  digest differ from the digest computed over the body taken at that cursor, the call
  throws \<^verbatim>\<open>Error\<close>: it returns no entry at all, neither the mismatched one nor any
  other.
\<close>

theorem C2_mismatch_throws:
  assumes "visit H h a k = Some i" and "i < byteLength a"
    and "read_record h a i = Inr (hash, name, body, i')"
    and "contents h hash \<noteq> H (contents h body)"
  shows "minipackDecode H h a = Some (Inl Error)"
proof -
  from assms(3,4) have "decode_record H h a i = Inl Error"
    by (simp add: decode_record_def hexEncode_inject)
  with assms(1,2) show ?thesis by (rule minipackDecode_error_at)
qed

theorem C2_mismatch_throws_witness:
  "visit sha256 [map (\<lambda>x. x + 1) (sha256 []) @ [0, 0, 0, 0, 0]]
      \<lparr>buffer = 0, byteOffset = 0, byteLength = 37\<rparr> 0 = Some 0
   \<and> (0::nat) < byteLength \<lparr>buffer = 0, byteOffset = 0, byteLength = 37\<rparr>
   \<and> read_record [map (\<lambda>x. x + 1) (sha256 []) @ [0, 0, 0, 0, 0]]
        \<lparr>buffer = 0, byteOffset = 0, byteLength = 37\<rparr> 0
      = Inr (\<lparr>buffer = 0, byteOffset = 0, byteLength = 32\<rparr>, [],
             \<lparr>buffer = 0, byteOffset = 37, byteLength = 0\<rparr>, 37)
   \<and> contents [map (\<lambda>x. x + 1) (sha256 []) @ [0, 0, 0, 0, 0]]
        \<lparr>buffer = 0, byteOffset = 0, byteLength = 32\<rparr>
      \<noteq> sha256 (contents [map (\<lambda>x. x + 1) (sha256 []) @ [0, 0, 0, 0, 0]]
                   \<lparr>buffer = 0, byteOffset = 37, byteLength = 0\<rparr>)
   \<and> minipackDecode sha256 [map (\<lambda>x. x + 1) (sha256 []) @ [0, 0, 0, 0, 0]]
        \<lparr>buffer = 0, byteOffset = 0, byteLength = 37\<rparr> = Some (Inl Error)"
proof -
  let ?d = "map (\<lambda>x. x + 1) (sha256 [])"
  let ?h = "[?d @ [0, 0, 0, 0, 0]] :: heap"
  let ?a = "\<lparr>buffer = 0, byteOffset = 0, byteLength = 37\<rparr>"
  have v: "visit sha256 ?h ?a 0 = Some 0" by simp
  have l: "(0::nat) < byteLength ?a" by simp
  have "read_record ?h ?a (length ([] :: byte list)) =
        Inr (\<lparr>buffer = buffer ?a, byteOffset = length ([] :: byte list), byteLength = 32\<rparr>,
             utfDecode [],
             \<lparr>buffer = buffer ?a, byteOffset = length ([] :: byte list) + 37 + length ([] :: byte list),
              byteLength = length ([] :: byte list)\<rparr>,
             length ([] :: byte list) + 37 + length ([] :: byte list) + length ([] :: byte list))"
    by (rule read_record_layout [where d = ?d and post = "[]"]) (simp_all add: layout_def be32_def)
  then have r: "read_record ?h ?a 0 = Inr (\<lparr>buffer = 0, byteOffset = 0, byteLength = 32\<rparr>, [],
      \<lparr>buffer = 0, byteOffset = 37, byteLength = 0\<rparr>, 37)"
    by (simp add: utfDecode_def strip_bom_def)
  have c: "contents ?h \<lparr>buffer = 0, byteOffset = 0, byteLength = 32\<rparr>
           \<noteq> sha256 (contents ?h \<lparr>buffer = 0, byteOffset = 37, byteLength = 0\<rparr>)"
    using map_succ_neq [OF sha256_nonempty [of "[]"]] by (simp add: contents_def)
  from C2_mismatch_throws [OF v l r c] v l r c show ?thesis by blast
qed

subsection \<open>C3: records that run past the end\<close>




subsection \<open>C4: names and bodies that are too long\<close>

text \<open>
  C4, as the spec states it, fails: \<^verbatim>\<open>minipackEncode\<close> checks no length. For a name of
  256 bytes (256 times the letter a) and an empty body it returns an archive of 293
  bytes whose name-length field is 0, the length modulo 256, followed by all 256 bytes
  of the name.
\<close>

theorem C4_counterexample:
  "length (utfEncode (replicate 256 0x61)) = 256
   \<and> minipackEncode sha256 [[]] [(replicate 256 0x61, \<lparr>buffer = 0, byteOffset = 0, byteLength = 0\<rparr>)]
     = Inr ([[], sha256 [] @ [0] @ [0, 0, 0, 0] @ replicate 256 0x61],
            \<lparr>buffer = 1, byteOffset = 0, byteLength = 293\<rparr>)"
proof -
  let ?fs = "[(replicate 256 0x61, \<lparr>buffer = 0, byteOffset = 0, byteLength = 0\<rparr>)]"
  have "minipackEncode sha256 [[]] ?fs =
        Inr ([[]] @ [concat (map (stored sha256 [[]]) ?fs)],
             \<lparr>buffer = length [[] :: byte list], byteOffset = 0, byteLength = archive_size ?fs\<rparr>)"
    by (rule minipackEncode_stored) (simp_all add: valid_view_def)
  then show ?thesis
    by (simp add: stored_def layout_def contents_def utfEncode_256_a be32_0 archive_size_sum)
qed

text \<open>
  C4, amended. \<^verbatim>\<open>minipackEncode\<close> does not fail on the size of a name or a body: for
  every sequence of entries it returns the concatenation, in order, of one record per
  entry, made of the digest of the body, one byte holding the length of the UTF-8 name
  modulo 256, four bytes holding the length of the body modulo \<open>2^32\<close> (big-endian), all
  bytes of the name and all bytes of the body.
\<close>

theorem C4_lengths_wrap:
  assumes "\<forall>f \<in> set fs. valid_view h (snd f)" and "\<forall>b. length (H b) = 32"
  shows "minipackEncode H h fs =
         Inr (h @ [concat (map (\<lambda>f. H (contents h (snd f))
                                  @ [of_nat (length (utfEncode (fst f)) mod 256)]
                                  @ be32 (byteLength (snd f) mod 2 ^ 32)
                                  @ utfEncode (fst f) @ contents h (snd f)) fs)],
              \<lparr>buffer = length h, byteOffset = 0, byteLength = archive_size fs\<rparr>)"
proof -
  have eq: "map (\<lambda>f. H (contents h (snd f)) @ [of_nat (length (utfEncode (fst f)) mod 256)]
                 @ be32 (byteLength (snd f) mod 2 ^ 32) @ utfEncode (fst f) @ contents h (snd f)) fs
            = map (stored H h) fs"
    using assms(1) by (simp add: stored_explicit)
  show ?thesis
    unfolding eq using assms by (intro minipackEncode_stored) simp_all
qed

theorem C4_lengths_wrap_witness:
  "valid_view [[]] \<lparr>buffer = 0, byteOffset = 0, byteLength = 0\<rparr>
   \<and> length (sha256 []) = 32
   \<and> minipackEncode sha256 [[]] [(replicate 256 0x61, \<lparr>buffer = 0, byteOffset = 0, byteLength = 0\<rparr>)]
     = Inr ([[], sha256 [] @ [of_nat (256 mod 256)] @ be32 (0 mod 2 ^ 32) @ replicate 256 0x61],
            \<lparr>buffer = 1, byteOffset = 0, byteLength = 293\<rparr>)"
  using C4_lengths_wrap [of "[(replicate 256 0x61, \<lparr>buffer = 0, byteOffset = 0, byteLength = 0\<rparr>)]"
      "[[]]" sha256]
  by (simp add: valid_view_def contents_def utfEncode_256_a archive_size_sum)

subsection \<open>C5: tampering\<close>




subsection \<open>C6: the length of the archive\<close>

text \<open>
  C6. For every sequence of entries (arrays that exist in the heap, with a digest of 32
  bytes) \<^verbatim>\<open>minipackEncode\<close> returns an array whose length, and the length of whose
  buffer, is the sum over the entries of 32 + 1 + 4 + the number of UTF-8 bytes of the
  name + the number of bytes of the body.
\<close>

theorem C6_archive_length:
  assumes "\<forall>f \<in> set fs. valid_view h (snd f)" and "\<forall>b. length (H b) = 32"
  shows "\<exists>h' a. minipackEncode H h fs = Inr (h', a)
           \<and> byteLength a = (\<Sum>f\<leftarrow>fs. 32 + 1 + 4 + length (utfEncode (fst f)) + byteLength (snd f))
           \<and> length (h' ! buffer a) = byteLength a
           \<and> length (contents h' a) = byteLength a"
proof -
  let ?A = "concat (map (stored H h) fs)"
  let ?a = "\<lparr>buffer = length h, byteOffset = 0, byteLength = archive_size fs\<rparr>"
  have enc: "minipackEncode H h fs = Inr (h @ [?A], ?a)"
    using assms by (intro minipackEncode_stored) simp_all
  have len: "length ?A = archive_size fs"
    using assms by (intro length_concat_stored) simp_all
  from enc len show ?thesis
    by (simp add: archive_size_sum contents_def)
qed

theorem C6_archive_length_witness:
  "valid_view [[1, 2, 3]] \<lparr>buffer = 0, byteOffset = 0, byteLength = 3\<rparr>
   \<and> length (sha256 [1, 2, 3]) = 32
   \<and> (\<exists>h' a. minipackEncode sha256 [[1, 2, 3]] [(a_txt, \<lparr>buffer = 0, byteOffset = 0, byteLength = 3\<rparr>)]
                = Inr (h', a)
          \<and> byteLength a = 32 + 1 + 4 + 5 + 3
          \<and> length (h' ! buffer a) = byteLength a
          \<and> length (contents h' a) = byteLength a)"
  using C6_archive_length [of "[(a_txt, \<lparr>buffer = 0, byteOffset = 0, byteLength = 3\<rparr>)]"
      "[[1, 2, 3]]" sha256]
  by (simp add: valid_view_def utfEncode_a_txt a_txt_bytes_def)

subsection \<open>C7: the example of the spec\<close>

text \<open>
  C7, as the spec states it, fails: the name \<^verbatim>\<open>a.txt\<close> has five bytes, not one, so the
  archive of the entry with a body of three bytes has 32 + 1 + 4 + 5 + 3 = 45 bytes, not
  41.
\<close>

theorem C7_counterexample:
  "byteLength \<lparr>buffer = 0, byteOffset = 0, byteLength = 3\<rparr> = 3
   \<and> minipackEncode sha256 [[1, 2, 3]] [(a_txt, \<lparr>buffer = 0, byteOffset = 0, byteLength = 3\<rparr>)]
     = Inr ([[1, 2, 3], sha256 [1, 2, 3] @ [5, 0, 0, 0, 3, 0x61, 0x2E, 0x74, 0x78, 0x74, 1, 2, 3]],
            \<lparr>buffer = 1, byteOffset = 0, byteLength = 45\<rparr>)"
  using encode_a_txt by (simp add: a_txt_bytes_def)

text \<open>
  C7, amended. Encoding the single entry with the name \<^verbatim>\<open>a.txt\<close> and a body of three
  bytes gives an archive of 32 + 1 + 4 + 5 + 3 = 45 bytes, and decoding this archive
  returns exactly one entry, with the name \<^verbatim>\<open>a.txt\<close> and the three bytes of the body.
\<close>

theorem C7_example:
  assumes "valid_view h v" and "byteLength v = 3" and "\<forall>b. length (H b) = 32"
  shows "\<exists>h' a w. minipackEncode H h [(a_txt, v)] = Inr (h', a)
           \<and> byteLength a = 32 + 1 + 4 + 5 + 3
           \<and> minipackDecode H h' a = Some (Inr [(a_txt, w)])
           \<and> contents h' w = contents h v"
proof -
  let ?fs = "[(a_txt, v)]"
  let ?h' = "h @ [concat (map (stored H h) ?fs)]"
  let ?a = "\<lparr>buffer = length h, byteOffset = 0, byteLength = archive_size ?fs\<rparr>"
  have enc: "minipackEncode H h ?fs = Inr (?h', ?a)"
    using assms by (intro minipackEncode_stored) simp_all
  have size: "byteLength ?a = 32 + 1 + 4 + 5 + 3"
    using assms(2) by (simp add: archive_size_sum utfEncode_a_txt a_txt_bytes_def)
  obtain fs' where dec: "minipackDecode H ?h' ?a = Some (Inr fs')"
    and eq: "map (\<lambda>f. (fst f, contents ?h' (snd f))) fs'
             = map (\<lambda>f. (utfDecode (utfEncode (fst f)), contents h (snd f))) ?fs"
    using decode_stored [of ?fs h H] assms
    by (auto simp: utfEncode_a_txt a_txt_bytes_def)
  from eq obtain w where fs': "fs' = [(a_txt, w)]" and w: "contents ?h' w = contents h v"
    by (cases fs') (auto simp: utfEncode_a_txt utfDecode_a_txt)
  from enc size dec fs' w show ?thesis by blast
qed

theorem C7_example_witness:
  "valid_view [[1, 2, 3]] \<lparr>buffer = 0, byteOffset = 0, byteLength = 3\<rparr>
   \<and> byteLength \<lparr>buffer = 0, byteOffset = 0, byteLength = 3\<rparr> = 3
   \<and> length (sha256 [1, 2, 3]) = 32
   \<and> (\<exists>h' a w. minipackEncode sha256 [[1, 2, 3]] [(a_txt, \<lparr>buffer = 0, byteOffset = 0, byteLength = 3\<rparr>)]
                  = Inr (h', a)
          \<and> byteLength a = 45
          \<and> minipackDecode sha256 h' a = Some (Inr [(a_txt, w)])
          \<and> contents h' w = [1, 2, 3])"
  using C7_example [of "[[1, 2, 3]]" "\<lparr>buffer = 0, byteOffset = 0, byteLength = 3\<rparr>" sha256]
  by (simp add: valid_view_def contents_def)

subsection \<open>C8: the empty archive\<close>

text \<open>
  C8. \<^verbatim>\<open>minipackEncode\<close> applied to the empty sequence returns a zero-length buffer (a
  fresh one, appended to the heap), and \<^verbatim>\<open>minipackDecode\<close> applied to a zero-length
  array returns the empty sequence.
\<close>

theorem C8_empty_archive:
  "minipackEncode H h [] = Inr (h @ [[]], \<lparr>buffer = length h, byteOffset = 0, byteLength = 0\<rparr>)
   \<and> (byteLength a = 0 \<longrightarrow> minipackDecode H h a = Some (Inr []))"
proof
  show "minipackEncode H h [] = Inr (h @ [[]], \<lparr>buffer = length h, byteOffset = 0, byteLength = 0\<rparr>)"
    by (simp add: minipackEncode_def archive_size_def new_Uint8Array_def Let_def)
  show "byteLength a = 0 \<longrightarrow> minipackDecode H h a = Some (Inr [])"
    unfolding minipackDecode_def by (subst decode_loop.simps) simp
qed

theorem C8_empty_archive_witness:
  "minipackEncode sha256 [] [] = Inr ([[]], \<lparr>buffer = 0, byteOffset = 0, byteLength = 0\<rparr>)
   \<and> byteLength \<lparr>buffer = 0, byteOffset = 0, byteLength = 0\<rparr> = 0
   \<and> minipackDecode sha256 [[]] \<lparr>buffer = 0, byteOffset = 0, byteLength = 0\<rparr> = Some (Inr [])"
  using C8_empty_archive [of sha256 "[]" "\<lparr>buffer = 0, byteOffset = 0, byteLength = 0\<rparr>"]
    C8_empty_archive [of sha256 "[[]]" "\<lparr>buffer = 0, byteOffset = 0, byteLength = 0\<rparr>"]
  by simp

subsection \<open>C9: encoding leaves its input alone\<close>

text \<open>
  C9. Whenever \<^verbatim>\<open>minipackEncode\<close> returns, the heap after the call is the heap before it
  with one buffer added at the end, which is the buffer of the returned array: every
  buffer that existed before is unchanged, so every body of the input shows the same
  bytes as before. The sequence of entries and the name strings are values that no
  operation of the function writes to.
\<close>

theorem C9_input_unchanged:
  assumes "minipackEncode H h fs = Inr (h', a)"
  shows "length h' = Suc (length h) \<and> take (length h) h' = h \<and> buffer a = length h
         \<and> (\<forall>f \<in> set fs. valid_view h (snd f) \<longrightarrow> contents h' (snd f) = contents h (snd f))"
proof -
  from minipackEncode_frame [OF assms]
  have frame: "length h' = Suc (length h)" "take (length h) h' = h" "buffer a = length h"
    by simp_all
  from frame(1) have "take (Suc (length h)) h' = take (length h) h' @ [h' ! length h]"
    by (intro take_Suc_conv_app_nth) simp
  with frame(1,2) have "h' = h @ [h' ! length h]" by simp
  then have "contents h' v = contents h v" if "valid_view h v" for v
    using that by (metis contents_append_heap)
  with frame show ?thesis by simp
qed

theorem C9_input_unchanged_witness:
  "minipackEncode sha256 [[1, 2, 3]] [(a_txt, \<lparr>buffer = 0, byteOffset = 0, byteLength = 3\<rparr>)]
     = Inr ([[1, 2, 3], sha256 [1, 2, 3] @ [5, 0, 0, 0, 3] @ a_txt_bytes @ [1, 2, 3]],
            \<lparr>buffer = 1, byteOffset = 0, byteLength = 45\<rparr>)
   \<and> valid_view [[1, 2, 3]] \<lparr>buffer = 0, byteOffset = 0, byteLength = 3\<rparr>
   \<and> take (length [[1, 2, 3 :: byte]])
        [[1, 2, 3], sha256 [1, 2, 3] @ [5, 0, 0, 0, 3] @ a_txt_bytes @ [1, 2, 3]] = [[1, 2, 3]]
   \<and> contents [[1, 2, 3], sha256 [1, 2, 3] @ [5, 0, 0, 0, 3] @ a_txt_bytes @ [1, 2, 3]]
        \<lparr>buffer = 0, byteOffset = 0, byteLength = 3\<rparr>
      = contents [[1, 2, 3]] \<lparr>buffer = 0, byteOffset = 0, byteLength = 3\<rparr>"
  using C9_input_unchanged [OF encode_a_txt] encode_a_txt
  by (simp add: valid_view_def)

subsection \<open>C10: the decode loop ends\<close>

text \<open>
  C10. \<^verbatim>\<open>minipackDecode\<close> returns (a result or an error) on every array in every heap,
  and every pass of its loop that does not throw moves the cursor forward by at least
  the 37 bytes of the fixed header, whatever the two length fields hold.
\<close>

theorem C10_decode_terminates:
  "(\<exists>r. minipackDecode H h a = Some r)
   \<and> (\<forall>i f i'. decode_record H h a i = Inr (f, i') \<longrightarrow> i + sizeHash + sizeName + sizeBody \<le> i')"
proof
  show "\<exists>r. minipackDecode H h a = Some r"
    unfolding minipackDecode_def by (rule decode_loop_returns)
  show "\<forall>i f i'. decode_record H h a i = Inr (f, i') \<longrightarrow> i + sizeHash + sizeName + sizeBody \<le> i'"
    by (auto simp: sizeHash_def sizeName_def sizeBody_def dest: decode_record_cursor)
qed

theorem C10_decode_terminates_witness:
  "decode_record sha256 [sha256 [] @ [0, 0, 0, 0, 0]] \<lparr>buffer = 0, byteOffset = 0, byteLength = 37\<rparr> 0
     = Inr (([], \<lparr>buffer = 0, byteOffset = 37, byteLength = 0\<rparr>), 37)
   \<and> (0::nat) + sizeHash + sizeName + sizeBody \<le> 37
   \<and> (\<exists>r. minipackDecode sha256 [sha256 [] @ [0, 0, 0, 0, 0]]
            \<lparr>buffer = 0, byteOffset = 0, byteLength = 37\<rparr> = Some r)"
  using C10_decode_terminates [of sha256 "[sha256 [] @ [0, 0, 0, 0, 0]]"
      "\<lparr>buffer = 0, byteOffset = 0, byteLength = 37\<rparr>"]
    decode_record_zero_lengths
  by (simp add: sizeHash_def sizeName_def sizeBody_def)

end
